theory Spec2Isabelle
  imports Main "HOL-Library.AList"
begin

section \<open>Event contract (src/core/types.ts)\<close>

text \<open>
  JavaScript numbers are IEEE-754 doubles. The model keeps the integer-valued ones (the
  prices, quantities and timestamps of the demo are whole numbers) as mathematical
  integers. Comparison and \<open>Math.min\<close> are exact on them. A subtraction is the exact
  difference rounded to the nearest double, ties to the even significand: \<open>dround\<close>. Up
  to \<open>2^53 = 9007199254740992\<close> in magnitude every integer is a double and the rounding
  is the identity; above, the doubles are the multiples of \<open>ulp\<close>. Fractional numbers,
  infinities and NaN are outside the model. Objects that the code shares by reference (orders and list
  nodes) live in explicit stores indexed by addresses.
\<close>

function ulp :: "int \<Rightarrow> int" where
  "ulp n = (if n < 9007199254740992 then 1 else 2 * ulp (n div 2))"
  by pat_completeness auto

termination by (relation "measure nat") auto

declare ulp.simps [simp del]

definition dround :: "int \<Rightarrow> int" where
  "dround x =
     (let m = \<bar>x\<bar>; u = ulp m; q = m div u; r = m mod u;
          q' = (if 2 * r < u then q else if u < 2 * r then q + 1
                else if even q then q else q + 1)
      in sgn x * (q' * u))"

definition js_sub :: "int \<Rightarrow> int \<Rightarrow> int" where
  "js_sub x y = dround (x - y)"

type_synonym addr = nat

datatype Side = BUY | SELL

record Order =
  oid :: string
  side :: Side
  price :: int
  qty :: int
  ts :: int
  symbol :: "string option"

datatype Event =
    NEW_ORDER Order
  | CANCEL_ORDER string
  | TRADE string string int int

section \<open>Doubly linked list (src/core/dll.ts)\<close>

record 'a ListNode =
  nvalue :: 'a
  nprev :: "addr option"
  nnext :: "addr option"

record DoublyLinkedList =
  head :: "addr option"
  tail :: "addr option"
  dsize :: int

type_synonym 'a node_store = "addr \<Rightarrow> 'a ListNode"

definition new_ListNode :: "'a \<Rightarrow> 'a ListNode" where
  "new_ListNode v = \<lparr>nvalue = v, nprev = None, nnext = None\<rparr>"

definition new_DoublyLinkedList :: DoublyLinkedList where
  "new_DoublyLinkedList = \<lparr>head = None, tail = None, dsize = 0\<rparr>"

text \<open>
  \<open>dll_append v node h l\<close>: the method \<open>append(value)\<close> of list \<open>l\<close>, where
  \<open>node\<close> is the address at which \<open>new ListNode(value)\<close> is allocated. The result
  is the updated node store and list object; the returned node is \<open>node\<close>.
\<close>

definition dll_append ::
  "'a \<Rightarrow> addr \<Rightarrow> 'a node_store \<Rightarrow> DoublyLinkedList \<Rightarrow> 'a node_store \<times> DoublyLinkedList" where
  "dll_append v node h l =
     (let h0 = h(node := new_ListNode v) in
      case tail l of
        None \<Rightarrow> (h0, l\<lparr>head := Some node, tail := Some node, dsize := dsize l + 1\<rparr>)
      | Some t \<Rightarrow>
          (let h1 = h0(node := (h0 node)\<lparr>nprev := Some t\<rparr>);
               h2 = h1(t := (h1 t)\<lparr>nnext := Some node\<rparr>)
           in (h2, l\<lparr>tail := Some node, dsize := dsize l + 1\<rparr>)))"

definition dll_remove ::
  "addr \<Rightarrow> 'a node_store \<Rightarrow> DoublyLinkedList \<Rightarrow> 'a node_store \<times> DoublyLinkedList" where
  "dll_remove node h l =
     (let (h1, l1) =
            (case nprev (h node) of
               Some p \<Rightarrow> (h(p := (h p)\<lparr>nnext := nnext (h node)\<rparr>), l)
             | None \<Rightarrow> (h, l\<lparr>head := nnext (h node)\<rparr>));
          (h2, l2) =
            (case nnext (h1 node) of
               Some n \<Rightarrow> (h1(n := (h1 n)\<lparr>nprev := nprev (h1 node)\<rparr>), l1)
             | None \<Rightarrow> (h1, l1\<lparr>tail := nprev (h1 node)\<rparr>));
          h3 = h2(node := (h2 node)\<lparr>nprev := None\<rparr>);
          h4 = h3(node := (h3 node)\<lparr>nnext := None\<rparr>)
      in (h4, l2\<lparr>dsize := dsize l2 - 1\<rparr>))"

definition peek :: "'a node_store \<Rightarrow> DoublyLinkedList \<Rightarrow> 'a option" where
  "peek h l = (case head l of Some n \<Rightarrow> Some (nvalue (h n)) | None \<Rightarrow> None)"

definition isEmpty :: "DoublyLinkedList \<Rightarrow> bool" where
  "isEmpty l = (dsize l = 0)"

section \<open>Order book (src/core/orderBook.ts)\<close>

text \<open>
  A JavaScript \<open>Map\<close> is an association list in insertion order: \<open>set\<close> is
  \<open>AList.update\<close> (in place for a present key, at the end for a new one), \<open>delete\<close> is
  \<open>AList.delete\<close>, \<open>get\<close> is \<open>map_of\<close>. A price level object is owned by its map
  entry alone, so it is stored there by value and written back after each mutation.
  The record also carries the part of the heap that the book reaches: the order
  objects and the list nodes, each with its allocation counter.
\<close>

record OrderRef =
  ref_order :: addr
  ref_node :: addr

record OrderBook =
  buys :: "(int \<times> DoublyLinkedList) list"
  sells :: "(int \<times> DoublyLinkedList) list"
  index :: "(string \<times> OrderRef) list"
  orders :: "addr \<Rightarrow> Order"
  nodes :: "addr node_store"
  next_order :: addr
  next_node :: addr

definition side_levels :: "Side \<Rightarrow> OrderBook \<Rightarrow> (int \<times> DoublyLinkedList) list" where
  "side_levels sd b = (if sd = BUY then buys b else sells b)"

definition set_side_levels ::
  "Side \<Rightarrow> (int \<times> DoublyLinkedList) list \<Rightarrow> OrderBook \<Rightarrow> OrderBook" where
  "set_side_levels sd lv b = (if sd = BUY then b\<lparr>buys := lv\<rparr> else b\<lparr>sells := lv\<rparr>)"

definition add :: "addr \<Rightarrow> OrderBook \<Rightarrow> OrderBook" where
  "add order b =
     (let ord = orders b order;
          sd = side ord;
          lv = side_levels sd b;
          (level, lv1) =
            (case map_of lv (price ord) of
               None \<Rightarrow> (new_DoublyLinkedList, AList.update (price ord) new_DoublyLinkedList lv)
             | Some l \<Rightarrow> (l, lv));
          node = next_node b;
          (h', level') = dll_append order node (nodes b) level;
          lv2 = AList.update (price ord) level' lv1;
          b1 = set_side_levels sd lv2 b
      in b1\<lparr>nodes := h', next_node := Suc node,
              index := AList.update (oid ord) \<lparr>ref_order = order, ref_node = node\<rparr> (index b1)\<rparr>)"

definition cancel :: "string \<Rightarrow> OrderBook \<Rightarrow> OrderBook" where
  "cancel orderId b =
     (case map_of (index b) orderId of
        None \<Rightarrow> b
      | Some r \<Rightarrow>
          (let ord = orders b (ref_order r);
               sd = side ord;
               lv = side_levels sd b
           in case map_of lv (price ord) of
                None \<Rightarrow> b
              | Some level \<Rightarrow>
                  (let (h', level') = dll_remove (ref_node r) (nodes b) level;
                       lv1 = AList.update (price ord) level' lv;
                       lv2 = (if isEmpty level' then AList.delete (price ord) lv1 else lv1);
                       b1 = set_side_levels sd lv2 b
                   in b1\<lparr>nodes := h', index := AList.delete orderId (index b1)\<rparr>)))"

definition bestBuy :: "OrderBook \<Rightarrow> addr option" where
  "bestBuy b =
     (if buys b = [] then None
      else (let p = Max (set (map fst (buys b)))
            in case map_of (buys b) p of
                 None \<Rightarrow> None
               | Some l \<Rightarrow> peek (nodes b) l))"

definition bestSell :: "OrderBook \<Rightarrow> addr option" where
  "bestSell b =
     (if sells b = [] then None
      else (let p = Min (set (map fst (sells b)))
            in case map_of (sells b) p of
                 None \<Rightarrow> None
               | Some l \<Rightarrow> peek (nodes b) l))"

definition new_OrderBook :: OrderBook where
  "new_OrderBook =
     \<lparr>buys = [], sells = [], index = [],
      orders = (\<lambda>_. \<lparr>oid = [], side = BUY, price = 0, qty = 0, ts = 0, symbol = None\<rparr>),
      nodes = (\<lambda>_. new_ListNode 0),
      next_order = 0, next_node = 0\<rparr>"

section \<open>Matching engine (class MatchingEngine, src/unnamed/part_007)\<close>

datatype ProcessMode = Live | Replay

record ProcessOptions =
  mode :: "ProcessMode option"

text \<open>
  The write-ahead log is the list of records appended, each serialised at the moment of
  the call. The event bus is its queue; it is modelled by the events as they are at
  the moment of publication (the queue holds references, so a consumer that drains it
  later sees the quantities of a published order as the matching loop has left them;
  nothing below depends on that). \<open>trace\<close> records, in execution order, the calls the
  engine makes on its collaborators and its in-memory fills.
\<close>

datatype Effect =
    WalAppend Event
  | BusPublish Event
  | BookAdd addr
  | BookCancel string
  | Fill addr addr int

record MatchingEngine =
  book :: OrderBook
  wal :: "Event list"
  eventBus :: "Event list"
  trace :: "Effect list"

definition new_MatchingEngine :: MatchingEngine where
  "new_MatchingEngine = \<lparr>book = new_OrderBook, wal = [], eventBus = [], trace = []\<rparr>"

definition wal_append :: "Event \<Rightarrow> MatchingEngine \<Rightarrow> MatchingEngine" where
  "wal_append ev e = e\<lparr>wal := wal e @ [ev], trace := trace e @ [WalAppend ev]\<rparr>"

definition publish :: "Event \<Rightarrow> MatchingEngine \<Rightarrow> MatchingEngine" where
  "publish ev e = e\<lparr>eventBus := eventBus e @ [ev], trace := trace e @ [BusPublish ev]\<rparr>"

definition emit :: "ProcessMode \<Rightarrow> Event \<Rightarrow> MatchingEngine \<Rightarrow> MatchingEngine" where
  "emit m ev e = (if m = Live then publish ev (wal_append ev e) else e)"

definition book_add :: "addr \<Rightarrow> MatchingEngine \<Rightarrow> MatchingEngine" where
  "book_add order e = e\<lparr>book := add order (book e), trace := trace e @ [BookAdd order]\<rparr>"

definition book_cancel :: "string \<Rightarrow> MatchingEngine \<Rightarrow> MatchingEngine" where
  "book_cancel orderId e =
     e\<lparr>book := cancel orderId (book e), trace := trace e @ [BookCancel orderId]\<rparr>"

definition set_qty :: "addr \<Rightarrow> int \<Rightarrow> OrderBook \<Rightarrow> OrderBook" where
  "set_qty a q b = b\<lparr>orders := (orders b)(a := (orders b a)\<lparr>qty := q\<rparr>)\<rparr>"

text \<open>One iteration of the loop of \<open>match\<close>, past its two exit tests.\<close>

definition match_step :: "ProcessMode \<Rightarrow> addr \<Rightarrow> addr \<Rightarrow> MatchingEngine \<Rightarrow> MatchingEngine" where
  "match_step m buy sell e =
     (let b0 = book e;
          q = min (qty (orders b0 buy)) (qty (orders b0 sell));
          p = price (orders b0 sell);
          b1 = set_qty buy (js_sub (qty (orders b0 buy)) q) b0;
          b2 = set_qty sell (js_sub (qty (orders b1 sell)) q) b1;
          e1 = e\<lparr>book := b2, trace := trace e @ [Fill buy sell q]\<rparr>;
          trade = TRADE (oid (orders b2 buy)) (oid (orders b2 sell)) q p;
          e2 = emit m trade e1;
          e3 = (if qty (orders (book e2) buy) = 0
                then book_cancel (oid (orders (book e2) buy)) e2 else e2);
          e4 = (if qty (orders (book e3) sell) = 0
                then book_cancel (oid (orders (book e3) sell)) e3 else e3)
      in e4)"

text \<open>
  The loop \<open>while (true)\<close> of \<open>match\<close>: the result \<open>None\<close> stands for a loop that does not
  return.
\<close>

partial_function (option) match :: "ProcessMode \<Rightarrow> MatchingEngine \<Rightarrow> MatchingEngine option" where
  "match m e =
     (case bestBuy (book e) of
        None \<Rightarrow> Some e
      | Some buy \<Rightarrow>
          (case bestSell (book e) of
             None \<Rightarrow> Some e
           | Some sell \<Rightarrow>
               if price (orders (book e) buy) < price (orders (book e) sell) then Some e
               else match m (match_step m buy sell e)))"

declare match.simps [code]

text \<open>
  Every NEW_ORDER event carries an order object of its own (the generator builds one
  per event, and the log reader parses one per line): \<open>new_order\<close> places it in the
  order store at the next free address.
\<close>

definition new_order :: "Order \<Rightarrow> OrderBook \<Rightarrow> OrderBook" where
  "new_order ord b = b\<lparr>orders := (orders b)(next_order b := ord), next_order := Suc (next_order b)\<rparr>"

definition process_mode :: "Event \<Rightarrow> ProcessMode \<Rightarrow> MatchingEngine \<Rightarrow> MatchingEngine option" where
  "process_mode ev m e =
     (case ev of
        NEW_ORDER ord \<Rightarrow>
          (let e1 = emit m ev e;
               a = next_order (book e1);
               e2 = e1\<lparr>book := new_order ord (book e1)\<rparr>;
               e3 = book_add a e2
           in match m e3)
      | CANCEL_ORDER orderId \<Rightarrow>
          (let e1 = emit m ev e
           in Some (book_cancel orderId e1))
      | TRADE buyId sellId q p \<Rightarrow> Some e)"

text \<open>
  \<open>process(event, options = {})\<close>: an absent options argument is \<open>None\<close>, an absent mode
  inside the options is \<open>mode = None\<close>; both resolve to live.
\<close>

definition process :: "Event \<Rightarrow> ProcessOptions option \<Rightarrow> MatchingEngine \<Rightarrow> MatchingEngine option" where
  "process ev options e =
     (let opts = (case options of None \<Rightarrow> \<lparr>mode = None\<rparr> | Some x \<Rightarrow> x);
          m = (case mode opts of None \<Rightarrow> Live | Some x \<Rightarrow> x)
      in process_mode ev m e)"

text \<open>
  A caller's loop over a list of events, as in the replay of the log at start-up
  (\<open>composeApp\<close>, src/unnamed/part_000); it stops where a call does not return.
\<close>

fun process_all :: "Event list \<Rightarrow> ProcessOptions option \<Rightarrow> MatchingEngine \<Rightarrow> MatchingEngine option" where
  "process_all [] options e = Some e"
| "process_all (ev # evs) options e =
     (case process ev options e of
        None \<Rightarrow> None
      | Some e' \<Rightarrow> process_all evs options e')"

section \<open>Abstraction of the linked structure\<close>

text \<open>
  \<open>chain h p xs n\<close>: in the node store \<open>h\<close> the nodes \<open>xs\<close> are linked in this order
  through their \<open>prev\<close> and \<open>next\<close> fields, the first one's \<open>prev\<close> being \<open>p\<close> and the
  last one's \<open>next\<close> being \<open>n\<close>. \<open>is_dll h l xs\<close>: the list object \<open>l\<close> holds exactly
  the nodes \<open>xs\<close>, from head to tail. \<open>level_nodes\<close> reads the nodes of a list object
  off the store by following \<open>next\<close> from the head.
\<close>

definition first_or :: "addr option \<Rightarrow> addr list \<Rightarrow> addr option" where
  "first_or d xs = (case xs of [] \<Rightarrow> d | x # _ \<Rightarrow> Some x)"

definition last_or :: "addr option \<Rightarrow> addr list \<Rightarrow> addr option" where
  "last_or d xs = (if xs = [] then d else Some (last xs))"

fun chain :: "'a node_store \<Rightarrow> addr option \<Rightarrow> addr list \<Rightarrow> addr option \<Rightarrow> bool" where
  "chain h p [] n = True"
| "chain h p (x # xs) n =
     (nprev (h x) = p \<and> nnext (h x) = first_or n xs \<and> chain h (Some x) xs n)"

definition is_dll :: "'a node_store \<Rightarrow> DoublyLinkedList \<Rightarrow> addr list \<Rightarrow> bool" where
  "is_dll h l xs =
     (distinct xs \<and> chain h None xs None \<and> head l = first_or None xs \<and>
      tail l = last_or None xs \<and> dsize l = int (length xs))"

fun walk :: "'a node_store \<Rightarrow> addr option \<Rightarrow> nat \<Rightarrow> addr list" where
  "walk h None k = []"
| "walk h (Some a) 0 = []"
| "walk h (Some a) (Suc k) = a # walk h (nnext (h a)) k"

definition level_nodes :: "'a node_store \<Rightarrow> DoublyLinkedList \<Rightarrow> addr list" where
  "level_nodes h l = walk h (head l) (nat (dsize l))"

section \<open>Order book invariant\<close>

text \<open>
  \<open>queued b sd p\<close> are the nodes queued at price \<open>p\<close> on side \<open>sd\<close>, from the front.
  The invariant says: map keys are unique; every price level of the two price maps is a
  well-formed, non-empty queue; every queued node is allocated, carries an order of the
  level's side and price, and the id index maps that order's id to this order and this
  node; every index entry is filed under its order's id and its handle is a node in
  the queue for its order's side and price, carrying that order.
\<close>

definition queued :: "OrderBook \<Rightarrow> Side \<Rightarrow> int \<Rightarrow> addr list" where
  "queued b sd p =
     (case map_of (side_levels sd b) p of
        None \<Rightarrow> []
      | Some l \<Rightarrow> level_nodes (nodes b) l)"

definition node_order :: "OrderBook \<Rightarrow> addr \<Rightarrow> Order" where
  "node_order b n = orders b (nvalue (nodes b n))"

definition node_ok :: "OrderBook \<Rightarrow> Side \<Rightarrow> int \<Rightarrow> addr \<Rightarrow> bool" where
  "node_ok b sd p n =
     (n < next_node b \<and> nvalue (nodes b n) < next_order b \<and>
      side (node_order b n) = sd \<and> price (node_order b n) = p \<and>
      map_of (index b) (oid (node_order b n)) =
        Some \<lparr>ref_order = nvalue (nodes b n), ref_node = n\<rparr>)"

definition level_ok :: "OrderBook \<Rightarrow> Side \<Rightarrow> int \<Rightarrow> bool" where
  "level_ok b sd p =
     (case map_of (side_levels sd b) p of
        None \<Rightarrow> False
      | Some l \<Rightarrow>
          queued b sd p \<noteq> [] \<and> is_dll (nodes b) l (queued b sd p) \<and>
          (\<forall>n\<in>set (queued b sd p). node_ok b sd p n))"

definition ref_ok :: "OrderBook \<Rightarrow> string \<Rightarrow> bool" where
  "ref_ok b i =
     (case map_of (index b) i of
        None \<Rightarrow> False
      | Some r \<Rightarrow>
          oid (orders b (ref_order r)) = i \<and>
          nvalue (nodes b (ref_node r)) = ref_order r \<and>
          ref_node r \<in> set (queued b (side (orders b (ref_order r)))
                                     (price (orders b (ref_order r)))))"

definition book_inv :: "OrderBook \<Rightarrow> bool" where
  "book_inv b =
     (distinct (map fst (buys b)) \<and> distinct (map fst (sells b)) \<and>
      distinct (map fst (index b)) \<and>
      (\<forall>p\<in>set (map fst (buys b)). level_ok b BUY p) \<and>
      (\<forall>p\<in>set (map fst (sells b)). level_ok b SELL p) \<and>
      (\<forall>i\<in>set (map fst (index b)). ref_ok b i))"

section \<open>Resting orders, quantities and arrival order\<close>

text \<open>
  \<open>all_nodes\<close> lists the queued nodes of the book, bids first, level by level in map
  order and front to back; \<open>resting\<close> lists the order objects they carry. \<open>total_qty\<close> is
  the total remaining quantity of the resting orders, \<open>pos_qty\<close> says that each of them
  has a positive remaining quantity.
\<close>

definition all_nodes :: "OrderBook \<Rightarrow> addr list" where
  "all_nodes b =
     concat (map (queued b BUY) (map fst (buys b))) @
     concat (map (queued b SELL) (map fst (sells b)))"

definition resting :: "OrderBook \<Rightarrow> addr list" where
  "resting b = map (\<lambda>n. nvalue (nodes b n)) (all_nodes b)"

definition total_qty :: "OrderBook \<Rightarrow> int" where
  "total_qty b = sum_list (map (\<lambda>a. qty (orders b a)) (resting b))"

definition pos_qty :: "OrderBook \<Rightarrow> bool" where
  "pos_qty b = (\<forall>a\<in>set (resting b). 0 < qty (orders b a))"

text \<open>
  \<open>fill_book buy sell b\<close> is what one iteration of the loop of \<open>match\<close> does to the book,
  in either mode (lemma \<open>book_match_step\<close>).
\<close>

definition fill_book :: "addr \<Rightarrow> addr \<Rightarrow> OrderBook \<Rightarrow> OrderBook" where
  "fill_book buy sell b0 =
     (let q = min (qty (orders b0 buy)) (qty (orders b0 sell));
          b1 = set_qty buy (js_sub (qty (orders b0 buy)) q) b0;
          b2 = set_qty sell (js_sub (qty (orders b1 sell)) q) b1;
          b3 = (if qty (orders b2 buy) = 0 then cancel (oid (orders b2 buy)) b2 else b2);
          b4 = (if qty (orders b3 sell) = 0 then cancel (oid (orders b3 sell)) b3 else b3)
      in b4)"

text \<open>
  In the words of the specification: no crossable pair remains when either side is
  empty or the best bid price is below the best ask price.
\<close>

definition no_crossable_pair :: "OrderBook \<Rightarrow> bool" where
  "no_crossable_pair b =
     (buys b = [] \<or> sells b = [] \<or> Max (fst ` set (buys b)) < Min (fst ` set (sells b)))"


section \<open>Event sequences and effects\<close>

text \<open>
  A valid input sequence consists of NEW_ORDER and CANCEL_ORDER events, the new orders
  with pairwise distinct ids and with positive price and quantity. \<open>match_effect\<close> holds
  of the effects that the matching loop produces: fills, appends and publications of
  TRADE events, and cancels.
\<close>

fun is_trade :: "Event \<Rightarrow> bool" where
  "is_trade (TRADE buyId sellId q p) = True"
| "is_trade ev = False"

fun new_order_ids :: "Event list \<Rightarrow> string list" where
  "new_order_ids [] = []"
| "new_order_ids (NEW_ORDER ord # evs) = oid ord # new_order_ids evs"
| "new_order_ids (ev # evs) = new_order_ids evs"

fun valid_event :: "Event \<Rightarrow> bool" where
  "valid_event (NEW_ORDER ord) = (0 < price ord \<and> 0 < qty ord)"
| "valid_event (CANCEL_ORDER orderId) = True"
| "valid_event (TRADE buyId sellId q p) = False"

definition valid_events :: "Event list \<Rightarrow> bool" where
  "valid_events evs = (distinct (new_order_ids evs) \<and> (\<forall>ev\<in>set evs. valid_event ev))"


section \<open>Scenario inputs\<close>

definition mk_order :: "string \<Rightarrow> Side \<Rightarrow> int \<Rightarrow> int \<Rightarrow> Order" where
  "mk_order i sd q p = \<lparr>oid = i, side = sd, price = p, qty = q, ts = 0, symbol = None\<rparr>"

definition live :: "ProcessOptions option" where
  "live = Some \<lparr>mode = Some Live\<rparr>"

definition replay :: "ProcessOptions option" where
  "replay = Some \<lparr>mode = Some Replay\<rparr>"

text \<open>BUY 10@100, SELL 4@100, SELL 10@99.\<close>

definition price_scenario :: "Event list" where
  "price_scenario =
     [NEW_ORDER (mk_order ''b1'' BUY 10 100),
      NEW_ORDER (mk_order ''s1'' SELL 4 100),
      NEW_ORDER (mk_order ''s2'' SELL 10 99)]"



text \<open>
  Books before any matching: one bid 10@100; two bids 5@100; a bid 6@100 together with
  a just inserted ask 10@99.
\<close>

definition one_bid :: OrderBook where
  "one_bid = add 0 (new_order (mk_order ''b1'' BUY 10 100) new_OrderBook)"

definition one_bid_engine :: MatchingEngine where
  "one_bid_engine = new_MatchingEngine\<lparr>book := one_bid\<rparr>"


definition crossed_book :: OrderBook where
  "crossed_book =
     add 1 (new_order (mk_order ''s2'' SELL 10 99)
       (add 0 (new_order (mk_order ''b1'' BUY 6 100) new_OrderBook)))"

definition crossed_engine :: MatchingEngine where
  "crossed_engine = new_MatchingEngine\<lparr>book := crossed_book\<rparr>"

text \<open>
  \<open>place ord b\<close> is the book \<open>b\<close> with a new order object \<open>ord\<close> inserted, as \<open>process\<close>
  leaves it before it enters the matching loop.
\<close>

definition place :: "Order \<Rightarrow> OrderBook \<Rightarrow> OrderBook" where
  "place ord b = add (next_order b) (new_order ord b)"


definition dup_book :: OrderBook where
  "dup_book =
     place (mk_order ''s1'' SELL 7 100)
       (place (mk_order ''b1'' BUY 5 100)
          (place (mk_order ''b1'' BUY 5 100) new_OrderBook))"

definition dup_engine :: MatchingEngine where
  "dup_engine = new_MatchingEngine\<lparr>book := dup_book\<rparr>"

text \<open>A bid of 9007199254740994 at 100 together with a just inserted ask of 1 at 100.\<close>

definition big_book :: OrderBook where
  "big_book =
     place (mk_order ''s1'' SELL 1 100)
       (place (mk_order ''b1'' BUY 9007199254740994 100) new_OrderBook)"

definition big_engine :: MatchingEngine where
  "big_engine = new_MatchingEngine\<lparr>book := big_book\<rparr>"

section \<open>Subtraction of doubles\<close>

lemma ulp_small: "n < 9007199254740992 \<Longrightarrow> ulp n = 1"
  by (subst ulp.simps) simp

lemma ulp_pos: "0 < ulp n"
proof (induction n rule: ulp.induct)
  case (1 n)
  show ?case
  proof (cases "n < 9007199254740992")
    case True
    then show ?thesis by (simp add: ulp_small)
  next
    case False
    with 1 have "0 < ulp (n div 2)" by simp
    with False show ?thesis by (subst ulp.simps) simp
  qed
qed

lemma ulp_le: "0 < n \<Longrightarrow> ulp n \<le> n"
proof (induction n rule: ulp.induct)
  case (1 n)
  show ?case
  proof (cases "n < 9007199254740992")
    case True
    with 1(2) show ?thesis by (simp add: ulp_small)
  next
    case False
    then have "0 < n div 2" by simp
    with 1(1) False have "ulp (n div 2) \<le> n div 2" by simp
    then have "2 * ulp (n div 2) \<le> n" by simp
    with False show ?thesis by (subst ulp.simps) simp
  qed
qed

lemma dround_0 [simp]: "dround 0 = 0"
  by (simp add: dround_def)

lemma dround_pos:
  assumes "0 < x"
  shows "0 < dround x"
proof -
  define m where "m = \<bar>x\<bar>"
  define u where "u = ulp m"
  define q where "q = m div u"
  define r where "r = m mod u"
  define q' where "q' = (if 2 * r < u then q else if u < 2 * r then q + 1
                else if even q then q else q + 1)"
  have d: "dround x = sgn x * (q' * u)"
    unfolding dround_def Let_def q'_def r_def q_def u_def m_def by (rule refl)
  have m: "0 < m" using assms by (simp add: m_def)
  have u: "0 < u" by (simp add: u_def ulp_pos)
  have "u \<le> m" using m by (simp add: u_def ulp_le)
  with u have "0 < m div u" by (simp add: pos_imp_zdiv_pos_iff)
  then have "1 \<le> q" by (simp add: q_def)
  moreover have "q \<le> q'" by (simp add: q'_def)
  ultimately have "0 < q'" by simp
  with u have "0 < q' * u" by simp
  with assms show ?thesis by (simp add: d)
qed

lemma dround_nonneg: "0 \<le> x \<Longrightarrow> 0 \<le> dround x"
  using dround_pos [of x] by (cases "x = 0") simp_all

lemma dround_exact:
  assumes "0 \<le> x" and "x \<le> 9007199254740992"
  shows "dround x = x"
proof (cases "x = 9007199254740992")
  case True
  have "dround 9007199254740992 = 9007199254740992" by code_simp
  with True show ?thesis by simp
next
  case False
  with assms have lt: "\<bar>x\<bar> < 9007199254740992" by simp
  have "dround x = sgn x * \<bar>x\<bar>"
    unfolding dround_def Let_def ulp_small [OF lt] by simp
  with assms(1) show ?thesis by (simp add: sgn_if)
qed

lemma js_sub_exact: "0 \<le> y \<Longrightarrow> y \<le> x \<Longrightarrow> x \<le> 9007199254740992 \<Longrightarrow> js_sub x y = x - y"
  by (simp add: js_sub_def dround_exact)

lemma js_sub_self [simp]: "js_sub x x = 0"
  by (simp add: js_sub_def)

lemma js_sub_nonneg: "y \<le> x \<Longrightarrow> 0 \<le> js_sub x y"
  by (simp add: js_sub_def dround_nonneg)

lemma js_sub_pos: "y < x \<Longrightarrow> 0 < js_sub x y"
  by (simp add: js_sub_def dround_pos)

section \<open>TRADE inputs\<close>

text \<open>
  C7. A TRADE event given to \<open>process\<close> is ignored whatever the options (absent, empty,
  live or replay): the engine is returned as it was, so the order book is unchanged,
  nothing is appended to the log and nothing is published.
\<close>

theorem trade_input_ignored:
  "process (TRADE buyId sellId q p) options e = Some e"
  by (simp add: process_def process_mode_def)

section \<open>Cancellation of unknown ids\<close>

lemma index_set_side_levels: "index (set_side_levels sd lv b) = index b"
  by (simp add: set_side_levels_def)

lemma cancel_absent: "map_of (index b) i = None \<Longrightarrow> cancel i b = b"
  by (simp add: cancel_def)

lemma cancel_index: "cancel i b = b \<or> map_of (index (cancel i b)) i = None"
  by (auto simp: cancel_def Let_def index_set_side_levels delete_conv
           split: option.splits prod.splits)

text \<open>
  C5. \<open>cancel\<close> is a total function without an error result. On an id that the id index
  does not hold it returns the book as it is, and for every book and every id a second
  cancel of the same id changes nothing any more.
\<close>

theorem cancel_idempotent:
  "(map_of (index b) orderId = None \<longrightarrow> cancel orderId b = b) \<and>
   cancel orderId (cancel orderId b) = cancel orderId b"
  using cancel_index [of orderId b] cancel_absent [of "cancel orderId b" orderId]
    cancel_absent [of b orderId]
  by auto

lemma one_bid_index_zz: "map_of (index one_bid) ''zz'' = None"
  by code_simp

lemma one_bid_index_b1: "map_of (index one_bid) ''b1'' \<noteq> None"
  by code_simp

theorem cancel_idempotent_witness:
  "map_of (index one_bid) ''zz'' = None \<and> cancel ''zz'' one_bid = one_bid \<and>
   map_of (index one_bid) ''b1'' \<noteq> None \<and>
   cancel ''b1'' (cancel ''b1'' one_bid) = cancel ''b1'' one_bid"
  using cancel_idempotent [of one_bid "''zz''"] cancel_idempotent [of one_bid "''b1''"]
    one_bid_index_zz one_bid_index_b1
  by simp

section \<open>Execution price\<close>

text \<open>
  C2 as stated does not hold. The run of its scenario BUY 10@100, SELL 4@100, SELL 10@99
  from the empty book: the third command trades 6 against the resting bid, and the
  trade written to the log carries the price 99 of the incoming sell order, not the
  price 100 of the resting bid.
\<close>

theorem price_scenario_log:
  "map_option wal (process_all price_scenario live new_MatchingEngine) =
     Some [NEW_ORDER (mk_order ''b1'' BUY 10 100),
           NEW_ORDER (mk_order ''s1'' SELL 4 100),
           TRADE ''b1'' ''s1'' 4 100,
           NEW_ORDER (mk_order ''s2'' SELL 10 99),
           TRADE ''b1'' ''s2'' 6 99]"
  by code_simp

text \<open>
  C2 (amended). Every trade that an iteration of the matching loop writes carries the
  buy order's id, the sell order's id, the minimum of the two remaining quantities and
  the price of the sell order, whichever of the two orders was resting. In the scenario
  the third command yields the trade of quantity 6 at price 99, the bid is filled and
  its level and index entry are gone, and the sell order rests with quantity 4 at 99.
\<close>

theorem trade_at_sell_price:
  "wal (match_step Live buy sell e) =
     wal e @ [TRADE (oid (orders (book e) buy)) (oid (orders (book e) sell))
                (min (qty (orders (book e) buy)) (qty (orders (book e) sell)))
                (price (orders (book e) sell))] \<and>
   map_option (\<lambda>e. (drop 3 (wal e), buys (book e), bestBuy (book e), sells (book e),
                     index (book e), map_option (orders (book e)) (bestSell (book e))))
       (process_all price_scenario live new_MatchingEngine) =
     Some ([NEW_ORDER (mk_order ''s2'' SELL 10 99), TRADE ''b1'' ''s2'' 6 99],
           [], None, [(99, \<lparr>head = Some 2, tail = Some 2, dsize = 1\<rparr>)],
           [(''s2'', \<lparr>ref_order = 2, ref_node = 2\<rparr>)],
           Some (mk_order ''s2'' SELL 4 99))"
proof -
  have step: "wal (match_step Live buy sell e) =
     wal e @ [TRADE (oid (orders (book e) buy)) (oid (orders (book e) sell))
                (min (qty (orders (book e) buy)) (qty (orders (book e) sell)))
                (price (orders (book e) sell))]"
  proof -
    define q where "q = min (qty (orders (book e) buy)) (qty (orders (book e) sell))"
    show ?thesis
      unfolding match_step_def Let_def q_def [symmetric]
      by (simp add: emit_def publish_def wal_append_def book_cancel_def set_qty_def)
  qed
  have run: "map_option (\<lambda>e. (drop 3 (wal e), buys (book e), bestBuy (book e), sells (book e),
                     index (book e), map_option (orders (book e)) (bestSell (book e))))
       (process_all price_scenario live new_MatchingEngine) =
     Some ([NEW_ORDER (mk_order ''s2'' SELL 10 99), TRADE ''b1'' ''s2'' 6 99],
           [], None, [(99, \<lparr>head = Some 2, tail = Some 2, dsize = 1\<rparr>)],
           [(''s2'', \<lparr>ref_order = 2, ref_node = 2\<rparr>)],
           Some (mk_order ''s2'' SELL 4 99))"
    by code_simp
  from step run show ?thesis by (rule conjI)
qed

section \<open>Linked lists: append and remove\<close>

lemma first_or_simps [simp]: "first_or d [] = d" "first_or d (x # xs) = Some x"
  by (simp_all add: first_or_def)

lemma last_or_simps [simp]: "last_or d [] = d" "last_or d (xs @ [x]) = Some x"
  "xs \<noteq> [] \<Longrightarrow> last_or d (y # xs) = last_or (Some y) xs"
  "last_or d [y] = Some y"
  by (simp_all add: last_or_def)

lemma last_or_Cons: "last_or d (y # xs) = last_or (Some y) xs"
  by (simp add: last_or_def)

lemma first_or_append: "first_or d (xs @ ys) = first_or (first_or d ys) xs"
  by (cases xs) simp_all

lemma chain_frame:
  "(\<forall>x\<in>set xs. nprev (h' x) = nprev (h x) \<and> nnext (h' x) = nnext (h x)) \<Longrightarrow>
   chain h' p xs n = chain h p xs n"
  by (induction xs arbitrary: p) auto

lemma chain_append:
  "chain h p (xs @ ys) n = (chain h p xs (first_or n ys) \<and> chain h (last_or p xs) ys n)"
  by (induction xs arbitrary: p) (auto simp: first_or_append last_or_Cons)

lemma chain_last_next:
  "chain h p xs n \<Longrightarrow> distinct xs \<Longrightarrow> xs \<noteq> [] \<Longrightarrow>
   (\<forall>x\<in>set xs. nprev (h' x) = nprev (h x)) \<Longrightarrow>
   (\<forall>x\<in>set (butlast xs). nnext (h' x) = nnext (h x)) \<Longrightarrow>
   nnext (h' (last xs)) = n' \<Longrightarrow> chain h' p xs n'"
proof (induction xs arbitrary: p)
  case Nil
  then show ?case by simp
next
  case (Cons x xs)
  show ?case
  proof (cases xs)
    case Nil
    with Cons.prems show ?thesis by simp
  next
    case (Cons y ys)
    with Cons.prems Cons.IH [of "Some x"] show ?thesis by auto
  qed
qed

lemma walk_chain: "chain h p xs None \<Longrightarrow> walk h (first_or None xs) (length xs) = xs"
proof (induction xs arbitrary: p)
  case Nil
  then show ?case by simp
next
  case (Cons x xs)
  then show ?case by auto
qed

lemma is_dll_level_nodes: "is_dll h l xs \<Longrightarrow> level_nodes h l = xs"
  using walk_chain [of h None xs] by (simp add: is_dll_def level_nodes_def)

lemma last_notin_butlast: "distinct xs \<Longrightarrow> xs \<noteq> [] \<Longrightarrow> last xs \<notin> set (butlast xs)"
  using distinct_append [of "butlast xs" "[last xs]"] by simp

lemma is_dll_frame: "is_dll h l xs \<Longrightarrow> (\<forall>x\<in>set xs. h' x = h x) \<Longrightarrow> is_dll h' l xs"
  using chain_frame [of xs h' h None None] by (simp add: is_dll_def)

lemma is_dll_empty: "is_dll h new_DoublyLinkedList []"
  by (simp add: is_dll_def new_DoublyLinkedList_def)

lemma dll_append_spec:
  assumes d: "is_dll h l xs" and n: "n \<notin> set xs" and a: "dll_append v n h l = (h', l')"
  shows "is_dll h' l' (xs @ [n])"
    and "nvalue (h' n) = v"
    and "\<And>y. y \<noteq> n \<Longrightarrow> nvalue (h' y) = nvalue (h y)"
    and "\<And>y. y \<noteq> n \<Longrightarrow> y \<notin> set xs \<Longrightarrow> h' y = h y"
proof -
  show "is_dll h' l' (xs @ [n])"
  proof (cases "xs = []")
    case True
    with d a show ?thesis
      by (auto simp: is_dll_def dll_append_def new_ListNode_def Let_def)
  next
    case False
    with d have t: "tail l = Some (last xs)" by (simp add: is_dll_def last_or_def)
    from n False have ne: "last xs \<noteq> n" using last_in_set by metis
    from a t have h': "h' = (h(n := (new_ListNode v)\<lparr>nprev := Some (last xs)\<rparr>))
                  (last xs := (h (last xs))\<lparr>nnext := Some n\<rparr>)"
      and l': "l' = l\<lparr>tail := Some n, dsize := dsize l + 1\<rparr>"
      using ne by (auto simp: dll_append_def Let_def)
    have dx: "distinct xs" and ch: "chain h None xs None" using d by (simp_all add: is_dll_def)
    have p1: "\<forall>x\<in>set xs. nprev (h' x) = nprev (h x)"
      using n by (auto simp: h')
    have p2: "\<forall>x\<in>set (butlast xs). nnext (h' x) = nnext (h x)"
    proof
      fix x assume x: "x \<in> set (butlast xs)"
      then have "x \<noteq> last xs" using last_notin_butlast [OF dx False] by auto
      moreover have "x \<noteq> n" using x n in_set_butlastD by metis
      ultimately show "nnext (h' x) = nnext (h x)" by (simp add: h')
    qed
    have p3: "nnext (h' (last xs)) = Some n" by (simp add: h')
    have c: "chain h' None xs (Some n)"
      by (rule chain_last_next [OF ch dx False p1 p2 p3])
    have hn: "nprev (h' n) = Some (last xs)" "nnext (h' n) = None"
      using ne by (simp_all add: h' new_ListNode_def)
    have "head l' = first_or None (xs @ [n])" using d False by (cases xs) (simp_all add: l' is_dll_def)
    moreover have "chain h' None (xs @ [n]) None"
      using c hn False by (simp add: chain_append last_or_def)
    ultimately show ?thesis
      using d n by (simp add: is_dll_def l')
  qed
  show "nvalue (h' n) = v"
    using a n d by (auto simp: dll_append_def Let_def new_ListNode_def is_dll_def last_or_def split: option.splits if_splits)
  show "\<And>y. y \<noteq> n \<Longrightarrow> nvalue (h' y) = nvalue (h y)"
    using a by (auto simp: dll_append_def Let_def new_ListNode_def split: option.splits)
  show "\<And>y. y \<noteq> n \<Longrightarrow> y \<notin> set xs \<Longrightarrow> h' y = h y"
    using a d by (auto simp: dll_append_def Let_def is_dll_def last_or_def split: option.splits if_splits)
qed

lemma chain_first_prev:
  "chain h p (z # zs) n \<Longrightarrow> z \<notin> set zs \<Longrightarrow> nprev (h' z) = p' \<Longrightarrow> nnext (h' z) = nnext (h z) \<Longrightarrow>
   (\<forall>x\<in>set zs. nprev (h' x) = nprev (h x) \<and> nnext (h' x) = nnext (h x)) \<Longrightarrow>
   chain h' p' (z # zs) n"
  using chain_frame [of zs h' h "Some z" n] by simp

lemma dll_remove_spec:
  assumes d: "is_dll h l xs" and n: "n \<in> set xs" and a: "dll_remove n h l = (h', l')"
  shows "is_dll h' l' (remove1 n xs)"
    and "\<And>y. nvalue (h' y) = nvalue (h y)"
    and "\<And>y. y \<notin> set xs \<Longrightarrow> h' y = h y"
proof -
  from n obtain ys zs where xs: "xs = ys @ n # zs" by (meson split_list)
  from d have dx: "distinct xs" by (simp add: is_dll_def)
  then have nys: "n \<notin> set ys" and nzs: "n \<notin> set zs" and dys: "distinct ys" and dzs: "distinct zs"
    and disj: "set ys \<inter> set zs = {}"
    by (auto simp: xs)
  have rm: "remove1 n xs = ys @ zs" using nys by (simp add: xs remove1_append)
  from d have ch: "chain h None ys (Some n)" and np: "nprev (h n) = last_or None ys"
    and nn: "nnext (h n) = first_or None zs" and cz: "chain h (Some n) zs None"
    by (simp_all add: is_dll_def xs chain_append)
  define h1 where "h1 = (case last_or None ys of Some p \<Rightarrow> h(p := (h p)\<lparr>nnext := first_or None zs\<rparr>) | None \<Rightarrow> h)"
  define h2 where "h2 = (case first_or None zs of Some q \<Rightarrow> h1(q := (h1 q)\<lparr>nprev := last_or None ys\<rparr>) | None \<Rightarrow> h1)"
  have h1n: "h1 n = h n" using nys by (auto simp: h1_def last_or_def split: option.splits)
  have pn: "\<And>p. last_or None ys = Some p \<Longrightarrow> p \<noteq> n"
    using nys by (auto simp: last_or_def split: if_splits)
  have qn: "\<And>q. first_or None zs = Some q \<Longrightarrow> q \<noteq> n"
    using nzs by (cases zs) auto
  have h': "h' = h2(n := (h2 n)\<lparr>nprev := None, nnext := None\<rparr>)"
    using a np nn pn qn
    by (cases "last_or None ys"; cases "first_or None zs")
       (auto simp: dll_remove_def Let_def h1_def h2_def)
  have l': "l' = l\<lparr>head := (if ys = [] then first_or None zs else head l),
                   tail := (if zs = [] then last_or None ys else tail l), dsize := dsize l - 1\<rparr>"
    using a np nn pn qn
    by (cases ys rule: rev_cases; cases zs) (auto simp: dll_remove_def Let_def)
  show "\<And>y. nvalue (h' y) = nvalue (h y)"
    by (auto simp: h' h2_def h1_def split: option.splits)
  show "\<And>y. y \<notin> set xs \<Longrightarrow> h' y = h y"
    by (cases ys rule: rev_cases; cases zs) (auto simp: h' h2_def h1_def xs  split: option.splits)
  have A: "chain h' None ys (first_or None zs)"
  proof (cases "ys = []")
    case True then show ?thesis by simp
  next
    case False
    have q1: "\<forall>x\<in>set ys. nprev (h' x) = nprev (h x)"
      using nys disj by (cases zs) (auto simp: h' h2_def h1_def split: option.splits)
    have q2: "\<forall>x\<in>set (butlast ys). nnext (h' x) = nnext (h x)"
    proof
      fix x assume x: "x \<in> set (butlast ys)"
      then have "x \<noteq> last ys" using last_notin_butlast [OF dys False] by auto
      moreover have "x \<in> set ys" using x in_set_butlastD by metis
      ultimately show "nnext (h' x) = nnext (h x)" using nys disj False
        by (cases zs) (auto simp: h' h2_def h1_def last_or_def split: option.splits)
    qed
    have q3: "nnext (h' (last ys)) = first_or None zs"
      using nys disj False by (cases zs) (auto simp: h' h2_def h1_def last_or_def split: option.splits)
    show ?thesis by (rule chain_last_next [OF ch dys False q1 q2 q3])
  qed
  have B: "chain h' (last_or None ys) zs None"
  proof (cases zs)
    case Nil then show ?thesis by simp
  next
    case (Cons z zs')
    have zy: "z \<notin> set ys" "z \<noteq> n" "z \<notin> set zs'" using disj nzs dzs Cons by auto
    have r1: "nprev (h' z) = last_or None ys" using zy by (simp add: h' h2_def Cons)
    have r2: "nnext (h' z) = nnext (h z)" using zy by (auto simp add: h' h2_def h1_def Cons last_or_def)
    have ly: "ys \<noteq> [] \<Longrightarrow> last ys \<notin> set zs"
    proof
      assume "ys \<noteq> []" and z: "last ys \<in> set zs"
      then have "last ys \<in> set ys" by simp
      with z disj show False by blast
    qed
    have r3: "\<forall>x\<in>set zs'. nprev (h' x) = nprev (h x) \<and> nnext (h' x) = nnext (h x)"
      using disj nzs dzs Cons ly by (auto simp add: h' h2_def h1_def last_or_def)
    show ?thesis using chain_first_prev [OF cz [unfolded Cons] zy(3) r1 r2 r3] by (simp add: Cons)
  qed
  have hd: "head l' = first_or None (ys @ zs)" using d by (cases ys) (simp_all add: l' is_dll_def xs)
  have tl: "tail l' = last_or None (ys @ zs)" using d by (cases zs rule: rev_cases) (simp_all add: l' is_dll_def xs last_or_def)
  show "is_dll h' l' (remove1 n xs)"
    using A B hd tl dys dzs disj d by (simp add: rm is_dll_def chain_append l') (simp add: xs)
qed

section \<open>The invariant under add and cancel\<close>

lemma map_of_keys: "(k \<in> fst ` set al) = (map_of al k \<noteq> None)"
  by (simp add: map_of_eq_None_iff)

lemma book_inv_levels:
  "book_inv b \<Longrightarrow> (\<forall>p\<in>set (map fst (side_levels sd b)). level_ok b sd p)"
  by (cases sd) (simp_all add: book_inv_def side_levels_def)

lemma book_inv_level:
  assumes "book_inv b" and "map_of (side_levels sd b) p = Some l"
  shows "queued b sd p \<noteq> []" and "is_dll (nodes b) l (queued b sd p)"
    and "queued b sd p = level_nodes (nodes b) l"
proof -
  from assms(2) have "p \<in> set (map fst (side_levels sd b))" by (simp add: map_of_keys)
  with assms(1) have "level_ok b sd p" using book_inv_levels by blast
  with assms(2) show "queued b sd p \<noteq> []" and "is_dll (nodes b) l (queued b sd p)"
    by (simp_all add: level_ok_def)
  show "queued b sd p = level_nodes (nodes b) l" using assms(2) by (simp add: queued_def)
qed

lemma queued_in_level:
  "n \<in> set (queued b sd p) \<Longrightarrow> \<exists>l. map_of (side_levels sd b) p = Some l"
  by (cases "map_of (side_levels sd b) p") (simp_all add: queued_def)

lemma book_inv_node:
  assumes "book_inv b" and "n \<in> set (queued b sd p)"
  shows "node_ok b sd p n"
proof -
  from assms(2) obtain l where l: "map_of (side_levels sd b) p = Some l"
    using queued_in_level by blast
  then have "p \<in> set (map fst (side_levels sd b))" by (simp add: map_of_keys)
  with assms(1) have "level_ok b sd p" using book_inv_levels by blast
  with l assms(2) show ?thesis by (simp add: level_ok_def)
qed

lemma book_inv_ref:
  assumes "book_inv b" and "map_of (index b) i = Some r"
  shows "oid (orders b (ref_order r)) = i" and "nvalue (nodes b (ref_node r)) = ref_order r"
    and "ref_node r \<in> set (queued b (side (orders b (ref_order r))) (price (orders b (ref_order r))))"
proof -
  from assms(2) have "i \<in> set (map fst (index b))" by (simp add: map_of_keys)
  with assms(1) have "ref_ok b i" by (auto simp: book_inv_def)
  with assms(2) show "oid (orders b (ref_order r)) = i" and "nvalue (nodes b (ref_node r)) = ref_order r"
    and "ref_node r \<in> set (queued b (side (orders b (ref_order r))) (price (orders b (ref_order r))))"
    by (simp_all add: ref_ok_def)
qed

lemma book_invI:
  assumes "distinct (map fst (buys b))" and "distinct (map fst (sells b))"
    and "distinct (map fst (index b))"
    and "\<And>sd p l. map_of (side_levels sd b) p = Some l \<Longrightarrow> level_ok b sd p"
    and "\<And>i r. map_of (index b) i = Some r \<Longrightarrow> ref_ok b i"
  shows "book_inv b"
proof -
  have "\<forall>p\<in>set (map fst (buys b)). level_ok b BUY p"
    using assms(4) [of BUY] by (auto simp: side_levels_def dest: weak_map_of_SomeI)
  moreover have "\<forall>p\<in>set (map fst (sells b)). level_ok b SELL p"
    using assms(4) [of SELL] by (auto simp: side_levels_def dest: weak_map_of_SomeI)
  moreover have "\<forall>i\<in>set (map fst (index b)). ref_ok b i"
    using assms(5) by (auto dest: weak_map_of_SomeI)
  ultimately show ?thesis using assms(1-3) by (simp add: book_inv_def)
qed

lemma queued_disjoint:
  assumes "book_inv b" and "n \<in> set (queued b sd p)" and "n \<in> set (queued b sd' p')"
  shows "sd = sd' \<and> p = p'"
  using book_inv_node [OF assms(1,2)] book_inv_node [OF assms(1,3)]
  by (simp add: node_ok_def)

lemma book_inv_empty: "book_inv new_OrderBook"
  by (simp add: book_inv_def new_OrderBook_def)

lemma side_levels_set [simp]:
  "side_levels sd' (set_side_levels sd lv b) = (if sd' = sd then lv else side_levels sd' b)"
  by (cases sd; cases sd') (simp_all add: side_levels_def set_side_levels_def)

lemma side_levels_upd [simp]:
  "side_levels sd (b\<lparr>nodes := h\<rparr>) = side_levels sd b"
  "side_levels sd (b\<lparr>index := ix\<rparr>) = side_levels sd b"
  "side_levels sd (b\<lparr>next_node := k\<rparr>) = side_levels sd b"
  "side_levels sd (b\<lparr>orders := os\<rparr>) = side_levels sd b"
  "side_levels sd (b\<lparr>next_order := k\<rparr>) = side_levels sd b"
  by (simp_all add: side_levels_def)

lemma set_side_levels_sel [simp]:
  "nodes (set_side_levels sd lv b) = nodes b"
  "orders (set_side_levels sd lv b) = orders b"
  "next_node (set_side_levels sd lv b) = next_node b"
  "next_order (set_side_levels sd lv b) = next_order b"
  "index (set_side_levels sd lv b) = index b"
  by (simp_all add: set_side_levels_def)

lemma add_eq:
  assumes "dll_append a (next_node b) (nodes b)
             (case map_of (side_levels (side (orders b a)) b) (price (orders b a)) of
                None \<Rightarrow> new_DoublyLinkedList | Some l \<Rightarrow> l) = (h', l')"
  shows "add a b =
     (set_side_levels (side (orders b a))
        (AList.update (price (orders b a)) l' (side_levels (side (orders b a)) b)) b)
       \<lparr>nodes := h', next_node := Suc (next_node b),
        index := AList.update (oid (orders b a)) \<lparr>ref_order = a, ref_node = next_node b\<rparr> (index b)\<rparr>"
  using assms by (auto simp: add_def Let_def split: option.splits)

lemma add_props:
  assumes inv: "book_inv b" and fresh: "map_of (index b) (oid (orders b a)) = None"
    and alloc: "a < next_order b"
  shows "book_inv (add a b)"
    and "\<And>sd' p'. queued (add a b) sd' p' =
           (if sd' = side (orders b a) \<and> p' = price (orders b a)
            then queued b sd' p' @ [next_node b] else queued b sd' p')"
    and "\<And>y. nvalue (nodes (add a b) y) = (if y = next_node b then a else nvalue (nodes b y))"
    and "orders (add a b) = orders b"
    and "next_node (add a b) = Suc (next_node b)"
    and "next_order (add a b) = next_order b"
    and "map_of (index (add a b)) =
           (map_of (index b))(oid (orders b a) \<mapsto> \<lparr>ref_order = a, ref_node = next_node b\<rparr>)"
proof -
  define sd where "sd = side (orders b a)"
  define p where "p = price (orders b a)"
  define i where "i = oid (orders b a)"
  define n where "n = next_node b"
  define l0 where "l0 = (case map_of (side_levels sd b) p of
                None \<Rightarrow> new_DoublyLinkedList | Some l \<Rightarrow> l)"
  obtain h' l' where ap: "dll_append a n (nodes b) l0 = (h', l')" by fastforce
  define b' where "b' = add a b"
  have b': "b' = (set_side_levels sd (AList.update p l' (side_levels sd b)) b)
       \<lparr>nodes := h', next_node := Suc n,
        index := AList.update i \<lparr>ref_order = a, ref_node = n\<rparr> (index b)\<rparr>"
    unfolding b'_def using add_eq [of a b h' l'] ap
    by (simp add: sd_def p_def i_def n_def l0_def)
  let ?xs = "queued b sd p"
  have d0: "is_dll (nodes b) l0 ?xs"
  proof (cases "map_of (side_levels sd b) p")
    case None
    then show ?thesis by (simp add: l0_def queued_def is_dll_empty)
  next
    case (Some l)
    with book_inv_level(2) [OF inv Some] show ?thesis by (simp add: l0_def)
  qed
  have nfresh: "n \<notin> set (queued b sd' p')" for sd' p'
    using book_inv_node [OF inv, of n sd' p'] by (auto simp: node_ok_def n_def)
  note sp = dll_append_spec [OF d0 nfresh ap]
  have lv: "map_of (side_levels sd' b') p' =
        (if sd' = sd \<and> p' = p then Some l' else map_of (side_levels sd' b) p')" for sd' p'
    by (simp add: b' update_conv')
  have agree: "h' y = nodes b y" if "y \<in> set (queued b sd' p')" and "\<not> (sd' = sd \<and> p' = p)" for y sd' p'
  proof -
    have "y \<noteq> n" using nfresh that(1) by blast
    moreover have "y \<notin> set ?xs" using queued_disjoint [OF inv that(1), of sd p] that(2) by blast
    ultimately show ?thesis using sp(4) by blast
  qed
  have q: "queued b' sd' p' = (if sd' = sd \<and> p' = p then ?xs @ [n] else queued b sd' p')" for sd' p'
  proof (cases "sd' = sd \<and> p' = p")
    case True
    have "queued b' sd p = level_nodes h' l'" by (simp add: queued_def lv) (simp add: b')
    then show ?thesis using is_dll_level_nodes [OF sp(1)] True by simp
  next
    case False
    then have F: "(sd' = sd \<and> p' = p) = False" by simp
    have lvF: "map_of (side_levels sd' b') p' = map_of (side_levels sd' b) p'"
      by (simp add: lv F)
    show ?thesis
    proof (cases "map_of (side_levels sd' b) p'")
      case None
      then show ?thesis by (simp add: queued_def lvF F)
    next
      case (Some l)
      have "is_dll (nodes b) l (queued b sd' p')" by (rule book_inv_level(2) [OF inv Some])
      then have "is_dll h' l (queued b sd' p')"
        by (rule is_dll_frame) (use agree False in blast)
      then have "level_nodes h' l = queued b sd' p'" by (rule is_dll_level_nodes)
      moreover have "queued b' sd' p' = level_nodes h' l"
        by (simp add: queued_def lvF Some) (simp add: b')
      ultimately show ?thesis by (simp add: F)
    qed
  qed
  have nv: "nvalue (nodes b' y) = (if y = n then a else nvalue (nodes b y))" for y
    using sp(2,3) by (simp add: b')
  have os: "orders b' = orders b" by (simp add: b')
  have idx: "map_of (index b') = (map_of (index b))(i \<mapsto> \<lparr>ref_order = a, ref_node = n\<rparr>)"
    by (simp add: b' update_conv')
  have no_old: "node_order b' y = node_order b y" if "y \<noteq> n" for y
    using that by (simp add: node_order_def nv os)
  have no_new: "node_order b' n = orders b a"
    by (simp add: node_order_def nv os)
  have nok: "node_ok b' sd' p' y" if y: "y \<in> set (queued b' sd' p')" for sd' p' y
  proof (cases "y = n")
    case True
    with y nfresh have "sd' = sd \<and> p' = p" by (auto simp: q split: if_splits)
    moreover have "next_node b' = Suc n" "next_order b' = next_order b" by (simp_all add: b')
    ultimately show ?thesis using True alloc
      by (simp add: node_ok_def no_new idx nv sd_def p_def i_def)
  next
    case False
    with y have yq: "y \<in> set (queued b sd' p')" by (auto simp: q split: if_splits)
    from book_inv_node [OF inv yq] have ok: "node_ok b sd' p' y" .
    then have "oid (node_order b y) \<noteq> i" using fresh by (auto simp: node_ok_def i_def)
    moreover have "y < n" using ok by (simp add: node_ok_def n_def)
    moreover have "next_node b' = Suc n" "next_order b' = next_order b" by (simp_all add: b')
    ultimately show ?thesis using ok False
      by (simp add: node_ok_def no_old idx nv)
  qed
  have lok: "level_ok b' sd' p'" if l: "map_of (side_levels sd' b') p' = Some l" for sd' p' l
  proof (cases "sd' = sd \<and> p' = p")
    case True
    with l have "l = l'" by (simp add: lv)
    moreover have "nodes b' = h'" by (simp add: b')
    ultimately have "is_dll (nodes b') l (queued b' sd' p')" using sp(1) True by (simp add: q)
    moreover have "queued b' sd' p' \<noteq> []" using True by (simp add: q)
    ultimately show ?thesis using l nok by (simp add: level_ok_def)
  next
    case False
    then have F: "(sd' = sd \<and> p' = p) = False" by simp
    from l have l0: "map_of (side_levels sd' b) p' = Some l" by (simp add: lv F)
    have "is_dll (nodes b) l (queued b sd' p')" by (rule book_inv_level(2) [OF inv l0])
    then have "is_dll h' l (queued b sd' p')"
      by (rule is_dll_frame) (use agree False in blast)
    moreover have "nodes b' = h'" by (simp add: b')
    ultimately have "is_dll (nodes b') l (queued b' sd' p')" by (simp add: q F)
    moreover have "queued b' sd' p' \<noteq> []" using book_inv_level(1) [OF inv l0] by (simp add: q F)
    ultimately show ?thesis using l nok by (simp add: level_ok_def)
  qed
  have rok: "ref_ok b' j" if r: "map_of (index b') j = Some r" for j r
  proof (cases "j = i")
    case True
    with r have "r = \<lparr>ref_order = a, ref_node = n\<rparr>" by (simp add: idx)
    then show ?thesis using True
      by (simp add: ref_ok_def idx os nv q sd_def p_def i_def)
  next
    case False
    with r have r0: "map_of (index b) j = Some r" by (simp add: idx)
    note rf = book_inv_ref [OF inv r0]
    have "ref_node r \<noteq> n" using rf(3) nfresh by metis
    then show ?thesis using rf False r0
      by (auto simp: ref_ok_def idx os nv q)
  qed
  have dk: "distinct (map fst (buys b'))" "distinct (map fst (sells b'))" "distinct (map fst (index b'))"
    using inv by (cases sd; simp add: b' book_inv_def set_side_levels_def side_levels_def distinct_update)+
  show "book_inv (add a b)"
    unfolding b'_def [symmetric] by (rule book_invI) (use dk lok rok in blast)+
  show "\<And>sd' p'. queued (add a b) sd' p' =
           (if sd' = side (orders b a) \<and> p' = price (orders b a)
            then queued b sd' p' @ [next_node b] else queued b sd' p')"
    using q by (auto simp: b'_def sd_def p_def n_def)
  show "\<And>y. nvalue (nodes (add a b) y) = (if y = next_node b then a else nvalue (nodes b y))"
    using nv by (simp add: b'_def n_def)
  show "orders (add a b) = orders b" using os by (simp add: b'_def)
  show "next_node (add a b) = Suc (next_node b)" using b' by (simp add: b'_def n_def)
  show "next_order (add a b) = next_order b" using b' by (simp add: b'_def)
  show "map_of (index (add a b)) =
           (map_of (index b))(oid (orders b a) \<mapsto> \<lparr>ref_order = a, ref_node = next_node b\<rparr>)"
    using idx by (simp add: b'_def i_def n_def)
qed

lemma cancel_eq:
  assumes "map_of (index b) i = Some r"
    and "map_of (side_levels (side (orders b (ref_order r))) b) (price (orders b (ref_order r))) = Some l"
    and "dll_remove (ref_node r) (nodes b) l = (h', l')"
  shows "cancel i b =
     (set_side_levels (side (orders b (ref_order r)))
        (if isEmpty l'
         then AList.delete (price (orders b (ref_order r))) (side_levels (side (orders b (ref_order r))) b)
         else AList.update (price (orders b (ref_order r))) l' (side_levels (side (orders b (ref_order r))) b)) b)
       \<lparr>nodes := h', index := AList.delete i (index b)\<rparr>"
  using assms by (simp add: cancel_def Let_def delete_update_same)

lemma cancel_props:
  assumes inv: "book_inv b" and r: "map_of (index b) i = Some r"
  shows "book_inv (cancel i b)"
    and "\<And>sd' p'. queued (cancel i b) sd' p' =
           (if sd' = side (orders b (ref_order r)) \<and> p' = price (orders b (ref_order r))
            then remove1 (ref_node r) (queued b sd' p') else queued b sd' p')"
    and "\<And>y. nvalue (nodes (cancel i b) y) = nvalue (nodes b y)"
    and "orders (cancel i b) = orders b"
    and "next_node (cancel i b) = next_node b"
    and "next_order (cancel i b) = next_order b"
    and "map_of (index (cancel i b)) = (map_of (index b))(i := None)"
proof -
  define sd where "sd = side (orders b (ref_order r))"
  define p where "p = price (orders b (ref_order r))"
  define m where "m = ref_node r"
  note rf = book_inv_ref [OF inv r]
  let ?xs = "queued b sd p"
  have mx: "m \<in> set ?xs" using rf(3) by (simp add: sd_def p_def m_def)
  then obtain l where l: "map_of (side_levels sd b) p = Some l" using queued_in_level by blast
  have d0: "is_dll (nodes b) l ?xs" by (rule book_inv_level(2) [OF inv l])
  then have dx: "distinct ?xs" by (simp add: is_dll_def)
  obtain h' l' where rm: "dll_remove m (nodes b) l = (h', l')" by fastforce
  note sp = dll_remove_spec [OF d0 mx rm]
  have emp: "isEmpty l' = (remove1 m ?xs = [])"
    using sp(1) by (simp add: isEmpty_def is_dll_def)
  define b' where "b' = cancel i b"
  have b': "b' = (set_side_levels sd
        (if remove1 m ?xs = [] then AList.delete p (side_levels sd b)
         else AList.update p l' (side_levels sd b)) b)
       \<lparr>nodes := h', index := AList.delete i (index b)\<rparr>"
    unfolding b'_def using cancel_eq [OF r, of l h' l'] l rm
    by (simp add: sd_def p_def m_def emp)
  have nb: "nodes b' = h'" by (simp add: b')
  have lv: "map_of (side_levels sd' b') p' =
        (if sd' = sd \<and> p' = p then (if remove1 m ?xs = [] then None else Some l')
         else map_of (side_levels sd' b) p')" for sd' p'
    by (simp add: b' update_conv' delete_conv')
  have agree: "h' y = nodes b y" if "y \<in> set (queued b sd' p')" and "\<not> (sd' = sd \<and> p' = p)" for y sd' p'
  proof -
    have "y \<notin> set ?xs" using queued_disjoint [OF inv that(1), of sd p] that(2) by blast
    then show ?thesis using sp(3) by blast
  qed
  have q: "queued b' sd' p' = (if sd' = sd \<and> p' = p then remove1 m ?xs else queued b sd' p')" for sd' p'
  proof (cases "sd' = sd \<and> p' = p")
    case True
    have "queued b' sd p = remove1 m ?xs"
      using is_dll_level_nodes [OF sp(1)] by (simp add: queued_def [of b'] lv nb)
    then show ?thesis using True by simp
  next
    case False
    then have F: "(sd' = sd \<and> p' = p) = False" by simp
    have lvF: "map_of (side_levels sd' b') p' = map_of (side_levels sd' b) p'"
      by (simp add: lv F)
    show ?thesis
    proof (cases "map_of (side_levels sd' b) p'")
      case None
      then show ?thesis by (simp add: queued_def lvF F)
    next
      case (Some k)
      have "is_dll (nodes b) k (queued b sd' p')" by (rule book_inv_level(2) [OF inv Some])
      then have "is_dll h' k (queued b sd' p')"
        by (rule is_dll_frame) (use agree False in blast)
      then have "level_nodes h' k = queued b sd' p'" by (rule is_dll_level_nodes)
      moreover have "queued b' sd' p' = level_nodes h' k"
        by (simp add: queued_def [of b'] lvF Some nb)
      ultimately show ?thesis by (simp add: F)
    qed
  qed
  have nv: "nvalue (nodes b' y) = nvalue (nodes b y)" for y
    using sp(2) by (simp add: nb)
  have os: "orders b' = orders b" by (simp add: b')
  have nn: "next_node b' = next_node b" "next_order b' = next_order b" by (simp_all add: b')
  have idx: "map_of (index b') = (map_of (index b))(i := None)"
    by (simp add: b' delete_conv')
  have no: "node_order b' y = node_order b y" for y
    by (simp add: node_order_def nv os)
  have sub: "y \<in> set (queued b sd' p')" if "y \<in> set (queued b' sd' p')" for y sd' p'
    using that set_remove1_subset [of m ?xs] by (auto simp: q split: if_splits)
  have ym: "y \<noteq> m" if y: "y \<in> set (queued b' sd' p')" for y sd' p'
  proof (cases "sd' = sd \<and> p' = p")
    case True
    with y have "y \<in> set (remove1 m ?xs)" by (simp add: q)
    with dx show ?thesis by auto
  next
    case False
    then have "y \<notin> set ?xs" using queued_disjoint [OF inv sub [OF y], of sd p] by blast
    with mx show ?thesis by blast
  qed
  have nok: "node_ok b' sd' p' y" if y: "y \<in> set (queued b' sd' p')" for sd' p' y
  proof -
    from book_inv_node [OF inv sub [OF y]] have ok: "node_ok b sd' p' y" .
    have "oid (node_order b y) \<noteq> i"
    proof
      assume "oid (node_order b y) = i"
      with ok r have "r = \<lparr>ref_order = nvalue (nodes b y), ref_node = y\<rparr>" by (simp add: node_ok_def)
      then have "y = m" by (simp add: m_def)
      with ym [OF y] show False by simp
    qed
    with ok show ?thesis by (simp add: node_ok_def no idx nv nn)
  qed
  have lok: "level_ok b' sd' p'" if k: "map_of (side_levels sd' b') p' = Some k" for sd' p' k
  proof (cases "sd' = sd \<and> p' = p")
    case True
    with k have ne: "remove1 m ?xs \<noteq> []" and kl: "k = l'" by (auto simp: lv split: if_splits)
    have "is_dll (nodes b') k (queued b' sd' p')" using sp(1) True kl by (simp add: q nb)
    moreover have "queued b' sd' p' \<noteq> []" using True ne by (simp add: q)
    ultimately show ?thesis using k nok by (simp add: level_ok_def)
  next
    case False
    then have F: "(sd' = sd \<and> p' = p) = False" by simp
    from k have k0: "map_of (side_levels sd' b) p' = Some k" by (simp add: lv F)
    have "is_dll (nodes b) k (queued b sd' p')" by (rule book_inv_level(2) [OF inv k0])
    then have "is_dll h' k (queued b sd' p')"
      by (rule is_dll_frame) (use agree False in blast)
    then have "is_dll (nodes b') k (queued b' sd' p')" by (simp add: q F nb)
    moreover have "queued b' sd' p' \<noteq> []" using book_inv_level(1) [OF inv k0] by (simp add: q F)
    ultimately show ?thesis using k nok by (simp add: level_ok_def)
  qed
  have rok: "ref_ok b' j" if r': "map_of (index b') j = Some r'" for j r'
  proof -
    from r' have ji: "j \<noteq> i" and r0: "map_of (index b) j = Some r'"
      by (auto simp: idx split: if_splits)
    note rf' = book_inv_ref [OF inv r0]
    have "ref_node r' \<noteq> m"
    proof
      assume "ref_node r' = m"
      then have "ref_order r' = ref_order r" using rf(2) rf'(2) by (simp add: m_def)
      then show False using rf(1) rf'(1) ji by simp
    qed
    then have "ref_node r' \<in> set (queued b' (side (orders b (ref_order r'))) (price (orders b (ref_order r'))))"
      using rf'(3) by (auto simp: q)
    then show ?thesis using rf' r' by (simp add: ref_ok_def os nv)
  qed
  have dk: "distinct (map fst (buys b'))" "distinct (map fst (sells b'))" "distinct (map fst (index b'))"
    using inv by (cases sd; simp add: b' book_inv_def set_side_levels_def side_levels_def distinct_update distinct_delete)+
  show "book_inv (cancel i b)"
    unfolding b'_def [symmetric] by (rule book_invI) (use dk lok rok in blast)+
  show "\<And>sd' p'. queued (cancel i b) sd' p' =
           (if sd' = side (orders b (ref_order r)) \<and> p' = price (orders b (ref_order r))
            then remove1 (ref_node r) (queued b sd' p') else queued b sd' p')"
    using q by (auto simp: b'_def sd_def p_def m_def)
  show "\<And>y. nvalue (nodes (cancel i b) y) = nvalue (nodes b y)"
    using nv by (simp add: b'_def)
  show "orders (cancel i b) = orders b" using os by (simp add: b'_def)
  show "next_node (cancel i b) = next_node b" using nn(1) by (simp add: b'_def)
  show "next_order (cancel i b) = next_order b" using b' by (simp add: b'_def)
  show "map_of (index (cancel i b)) = (map_of (index b))(i := None)"
    using idx by (simp add: b'_def)
qed

lemma cancel_inv: "book_inv b \<Longrightarrow> book_inv (cancel i b)"
  using cancel_props(1) [of b i] cancel_absent [of b i] by (cases "map_of (index b) i") auto

section \<open>Resting nodes and orders\<close>

lemma in_all_nodes: "(n \<in> set (all_nodes b)) = (\<exists>sd p. n \<in> set (queued b sd p))"
proof
  assume "n \<in> set (all_nodes b)"
  then show "\<exists>sd p. n \<in> set (queued b sd p)" by (auto simp: all_nodes_def)
next
  assume "\<exists>sd p. n \<in> set (queued b sd p)"
  then obtain sd p where n: "n \<in> set (queued b sd p)" by blast
  then obtain l where "map_of (side_levels sd b) p = Some l" using queued_in_level by blast
  then have "p \<in> fst ` set (side_levels sd b)" by (simp add: map_of_keys)
  with n show "n \<in> set (all_nodes b)"
    by (cases sd) (auto simp: all_nodes_def side_levels_def)
qed

lemma distinct_concat_map:
  "distinct ks \<Longrightarrow> (\<And>k. k \<in> set ks \<Longrightarrow> distinct (f k)) \<Longrightarrow>
   (\<And>k k'. k \<in> set ks \<Longrightarrow> k' \<in> set ks \<Longrightarrow> k \<noteq> k' \<Longrightarrow> set (f k) \<inter> set (f k') = {}) \<Longrightarrow>
   distinct (concat (map f ks))"
proof (induction ks)
  case Nil
  then show ?case by simp
next
  case (Cons k ks)
  have "distinct (concat (map f ks))"
    by (rule Cons.IH) (use Cons.prems in auto)
  moreover have "set (f k) \<inter> set (f k') = {}" if "k' \<in> set ks" for k'
    using Cons.prems(1) Cons.prems(3) [of k k'] that by auto
  ultimately show ?case using Cons.prems(2) [of k] by auto
qed

lemma queued_distinct: "book_inv b \<Longrightarrow> distinct (queued b sd p)"
proof (cases "map_of (side_levels sd b) p")
  case None
  then show ?thesis by (simp add: queued_def)
next
  case (Some l)
  assume "book_inv b"
  from book_inv_level(2) [OF this Some] show ?thesis by (simp add: is_dll_def)
qed

lemma distinct_all_nodes:
  assumes inv: "book_inv b"
  shows "distinct (all_nodes b)"
proof -
  have side: "distinct (concat (map (queued b sd) (map fst (side_levels sd b))))" for sd
  proof (rule distinct_concat_map)
    show "distinct (map fst (side_levels sd b))"
      using inv by (cases sd) (simp_all add: book_inv_def side_levels_def)
    show "\<And>k. distinct (queued b sd k)" by (rule queued_distinct [OF inv])
    show "\<And>k k'. k \<noteq> k' \<Longrightarrow> set (queued b sd k) \<inter> set (queued b sd k') = {}"
      using queued_disjoint [OF inv] by blast
  qed
  have "set (concat (map (queued b BUY) (map fst (buys b)))) \<inter>
        set (concat (map (queued b SELL) (map fst (sells b)))) = {}"
  proof -
    have "False" if "n \<in> set (queued b BUY p)" and "n \<in> set (queued b SELL p')" for n p p'
      using queued_disjoint [OF inv that] by simp
    then show ?thesis by auto
  qed
  with side [of BUY] side [of SELL] show ?thesis
    by (simp add: all_nodes_def side_levels_def)
qed

lemma node_value_inj:
  assumes inv: "book_inv b" and n: "n \<in> set (all_nodes b)" and n': "n' \<in> set (all_nodes b)"
    and v: "nvalue (nodes b n) = nvalue (nodes b n')"
  shows "n = n'"
proof -
  from n obtain sd p where "n \<in> set (queued b sd p)" by (auto simp: in_all_nodes)
  from book_inv_node [OF inv this]
  have 1: "map_of (index b) (oid (node_order b n)) = Some \<lparr>ref_order = nvalue (nodes b n), ref_node = n\<rparr>"
    by (simp add: node_ok_def)
  from n' obtain sd' p' where "n' \<in> set (queued b sd' p')" by (auto simp: in_all_nodes)
  from book_inv_node [OF inv this]
  have 2: "map_of (index b) (oid (node_order b n')) = Some \<lparr>ref_order = nvalue (nodes b n'), ref_node = n'\<rparr>"
    by (simp add: node_ok_def)
  from 1 2 v show ?thesis by (simp add: node_order_def)
qed

lemma distinct_resting: "book_inv b \<Longrightarrow> distinct (resting b)"
  using distinct_all_nodes [of b] node_value_inj [of b]
  by (auto simp: resting_def distinct_map inj_on_def)

lemma set_qty_sel [simp]:
  "nodes (set_qty a q b) = nodes b" "index (set_qty a q b) = index b"
  "buys (set_qty a q b) = buys b" "sells (set_qty a q b) = sells b"
  "next_node (set_qty a q b) = next_node b" "next_order (set_qty a q b) = next_order b"
  "side_levels sd (set_qty a q b) = side_levels sd b"
  by (simp_all add: set_qty_def)

lemma queued_set_qty [simp]: "queued (set_qty a q b) = queued b"
  by (intro ext) (simp add: queued_def split: option.split)

lemma orders_set_qty:
  "orders (set_qty a q b) x = (if x = a then (orders b a)\<lparr>qty := q\<rparr> else orders b x)"
  by (simp add: set_qty_def)

lemma set_qty_fields [simp]:
  "side (orders (set_qty a q b) x) = side (orders b x)"
  "price (orders (set_qty a q b) x) = price (orders b x)"
  "oid (orders (set_qty a q b) x) = oid (orders b x)"
  by (simp_all add: orders_set_qty)

lemma set_qty_inv: "book_inv (set_qty a q b) = book_inv b"
proof -
  have no: "node_ok (set_qty a q b) sd p n = node_ok b sd p n" for sd p n
    by (simp add: node_ok_def node_order_def)
  have "level_ok (set_qty a q b) sd p = level_ok b sd p" for sd p
    by (simp add: level_ok_def no split: option.split)
  moreover have "ref_ok (set_qty a q b) i = ref_ok b i" for i
    by (simp add: ref_ok_def split: option.split)
  ultimately show ?thesis by (simp add: book_inv_def)
qed

lemma all_nodes_set_qty [simp]: "all_nodes (set_qty a q b) = all_nodes b"
  by (simp add: all_nodes_def)

lemma resting_set_qty [simp]: "resting (set_qty a q b) = resting b"
  by (simp add: resting_def)

section \<open>One iteration of the matching loop\<close>

lemma book_emit [simp]: "book (emit m ev e) = book e"
  by (simp add: emit_def publish_def wal_append_def)

lemma book_match_step: "book (match_step m buy sell e) = fill_book buy sell (book e)"
proof -
  define q where "q = min (qty (orders (book e) buy)) (qty (orders (book e) sell))"
  show ?thesis
    unfolding match_step_def fill_book_def Let_def q_def [symmetric]
    by (simp add: book_cancel_def)
qed

lemma orders_cancel [simp]: "orders (cancel i b) = orders b"
  by (auto simp: cancel_def Let_def split: option.splits prod.splits)

lemma next_order_cancel [simp]: "next_order (cancel i b) = next_order b"
  by (auto simp: cancel_def Let_def split: option.splits prod.splits)

lemma next_node_cancel [simp]: "next_node (cancel i b) = next_node b"
  by (auto simp: cancel_def Let_def split: option.splits prod.splits)

lemma bestBuy_Some:
  assumes inv: "book_inv b" and bb: "bestBuy b = Some a"
  shows "\<exists>n. queued b BUY (Max (fst ` set (buys b))) \<noteq> [] \<and>
             n = hd (queued b BUY (Max (fst ` set (buys b)))) \<and> nvalue (nodes b n) = a"
proof -
  let ?p = "Max (fst ` set (buys b))"
  from bb have ne: "buys b \<noteq> []" by (auto simp: bestBuy_def split: if_splits)
  then have "?p \<in> fst ` set (buys b)" by (intro Max_in) auto
  then obtain l where l: "map_of (side_levels BUY b) ?p = Some l"
    by (auto simp: map_of_keys side_levels_def)
  note lv = book_inv_level [OF inv l]
  from lv(1) obtain n ns where q: "queued b BUY ?p = n # ns" by (cases "queued b BUY ?p") auto
  with lv(2) have "head l = Some n" by (simp add: is_dll_def)
  with bb ne l have "nvalue (nodes b n) = a"
    by (simp add: bestBuy_def peek_def side_levels_def)
  with q show ?thesis by simp
qed

lemma bestSell_Some:
  assumes inv: "book_inv b" and bb: "bestSell b = Some a"
  shows "\<exists>n. queued b SELL (Min (fst ` set (sells b))) \<noteq> [] \<and>
             n = hd (queued b SELL (Min (fst ` set (sells b)))) \<and> nvalue (nodes b n) = a"
proof -
  let ?p = "Min (fst ` set (sells b))"
  from bb have ne: "sells b \<noteq> []" by (auto simp: bestSell_def split: if_splits)
  then have "?p \<in> fst ` set (sells b)" by (intro Min_in) auto
  then obtain l where l: "map_of (side_levels SELL b) ?p = Some l"
    by (auto simp: map_of_keys side_levels_def)
  note lv = book_inv_level [OF inv l]
  from lv(1) obtain n ns where q: "queued b SELL ?p = n # ns" by (cases "queued b SELL ?p") auto
  with lv(2) have "head l = Some n" by (simp add: is_dll_def)
  with bb ne l have "nvalue (nodes b n) = a"
    by (simp add: bestSell_def peek_def side_levels_def)
  with q show ?thesis by simp
qed

lemma bestBuy_None: "book_inv b \<Longrightarrow> (bestBuy b = None) = (buys b = [])"
proof
  assume inv: "book_inv b" and bn: "bestBuy b = None"
  show "buys b = []"
  proof (rule ccontr)
    let ?p = "Max (fst ` set (buys b))"
    assume ne: "buys b \<noteq> []"
    then have "?p \<in> fst ` set (buys b)" by (intro Max_in) auto
    then obtain l where l: "map_of (side_levels BUY b) ?p = Some l"
      by (auto simp: map_of_keys side_levels_def)
    note lv = book_inv_level [OF inv l]
    from lv(1) obtain n ns where q: "queued b BUY ?p = n # ns" by (cases "queued b BUY ?p") auto
    with lv(2) have "head l = Some n" by (simp add: is_dll_def)
    with bn ne l show False by (simp add: bestBuy_def peek_def side_levels_def)
  qed
next
  assume "buys b = []"
  then show "bestBuy b = None" by (simp add: bestBuy_def)
qed

lemma bestSell_None: "book_inv b \<Longrightarrow> (bestSell b = None) = (sells b = [])"
proof
  assume inv: "book_inv b" and bn: "bestSell b = None"
  show "sells b = []"
  proof (rule ccontr)
    let ?p = "Min (fst ` set (sells b))"
    assume ne: "sells b \<noteq> []"
    then have "?p \<in> fst ` set (sells b)" by (intro Min_in) auto
    then obtain l where l: "map_of (side_levels SELL b) ?p = Some l"
      by (auto simp: map_of_keys side_levels_def)
    note lv = book_inv_level [OF inv l]
    from lv(1) obtain n ns where q: "queued b SELL ?p = n # ns" by (cases "queued b SELL ?p") auto
    with lv(2) have "head l = Some n" by (simp add: is_dll_def)
    with bn ne l show False by (simp add: bestSell_def peek_def side_levels_def)
  qed
next
  assume "sells b = []"
  then show "bestSell b = None" by (simp add: bestSell_def)
qed

lemma best_node:
  assumes inv: "book_inv b"
  shows "bestBuy b = Some a \<Longrightarrow>
           \<exists>n. n \<in> set (all_nodes b) \<and> nvalue (nodes b n) = a \<and>
               node_ok b BUY (Max (fst ` set (buys b))) n"
    and "bestSell b = Some a \<Longrightarrow>
           \<exists>n. n \<in> set (all_nodes b) \<and> nvalue (nodes b n) = a \<and>
               node_ok b SELL (Min (fst ` set (sells b))) n"
proof -
  assume "bestBuy b = Some a"
  from bestBuy_Some [OF inv this] obtain n where
    n: "queued b BUY (Max (fst ` set (buys b))) \<noteq> []" "n = hd (queued b BUY (Max (fst ` set (buys b))))"
      "nvalue (nodes b n) = a" by blast
  then have m: "n \<in> set (queued b BUY (Max (fst ` set (buys b))))" by simp
  from book_inv_node [OF inv m] m n(3)
  show "\<exists>n. n \<in> set (all_nodes b) \<and> nvalue (nodes b n) = a \<and>
               node_ok b BUY (Max (fst ` set (buys b))) n"
    by (auto simp: in_all_nodes)
next
  assume "bestSell b = Some a"
  from bestSell_Some [OF inv this] obtain n where
    n: "queued b SELL (Min (fst ` set (sells b))) \<noteq> []" "n = hd (queued b SELL (Min (fst ` set (sells b))))"
      "nvalue (nodes b n) = a" by blast
  then have m: "n \<in> set (queued b SELL (Min (fst ` set (sells b))))" by simp
  from book_inv_node [OF inv m] m n(3)
  show "\<exists>n. n \<in> set (all_nodes b) \<and> nvalue (nodes b n) = a \<and>
               node_ok b SELL (Min (fst ` set (sells b))) n"
    by (auto simp: in_all_nodes)
qed

lemma cancel_node:
  assumes inv: "book_inv b" and n: "n \<in> set (all_nodes b)"
  shows "book_inv (cancel (oid (node_order b n)) b)"
    and "set (all_nodes (cancel (oid (node_order b n)) b)) = set (all_nodes b) - {n}"
    and "\<And>y. nvalue (nodes (cancel (oid (node_order b n)) b) y) = nvalue (nodes b y)"
    and "map_of (index (cancel (oid (node_order b n)) b)) (oid (node_order b n)) = None"
proof -
  let ?i = "oid (node_order b n)"
  let ?r = "\<lparr>ref_order = nvalue (nodes b n), ref_node = n\<rparr>"
  from n obtain sd p where q: "n \<in> set (queued b sd p)" by (auto simp: in_all_nodes)
  from book_inv_node [OF inv q] have ok: "node_ok b sd p n" .
  then have r: "map_of (index b) ?i = Some ?r" by (simp add: node_ok_def)
  note cp = cancel_props [OF inv r]
  from ok have sp: "side (orders b (nvalue (nodes b n))) = sd" "price (orders b (nvalue (nodes b n))) = p"
    by (simp_all add: node_ok_def node_order_def)
  have q': "queued (cancel ?i b) sd' p' =
      (if sd' = sd \<and> p' = p then remove1 n (queued b sd p) else queued b sd' p')" for sd' p'
    using cp(2) [of sd' p'] sp by auto
  show "book_inv (cancel ?i b)" by (rule cp(1))
  show "\<And>y. nvalue (nodes (cancel ?i b) y) = nvalue (nodes b y)" by (rule cp(3))
  show "map_of (index (cancel ?i b)) ?i = None" by (simp add: cp(7))
  have dq: "distinct (queued b sd p)" by (rule queued_distinct [OF inv])
  show "set (all_nodes (cancel ?i b)) = set (all_nodes b) - {n}"
  proof (intro set_eqI iffI)
    fix y assume "y \<in> set (all_nodes (cancel ?i b))"
    then obtain sd' p' where y: "y \<in> set (queued (cancel ?i b) sd' p')" by (auto simp: in_all_nodes)
    show "y \<in> set (all_nodes b) - {n}"
    proof (cases "sd' = sd \<and> p' = p")
      case True
      with y have "y \<in> set (remove1 n (queued b sd p))" by (simp add: q')
      with dq have "y \<in> set (queued b sd p)" "y \<noteq> n" by auto
      then show ?thesis by (auto simp: in_all_nodes)
    next
      case False
      then have F: "(sd' = sd \<and> p' = p) = False" by simp
      from y have y0: "y \<in> set (queued b sd' p')" by (simp add: q' F)
      then have "y \<noteq> n" using queued_disjoint [OF inv q, of sd' p'] False by blast
      with y0 show ?thesis by (auto simp: in_all_nodes)
    qed
  next
    fix y assume "y \<in> set (all_nodes b) - {n}"
    then have yn: "y \<noteq> n" and "y \<in> set (all_nodes b)" by auto
    then obtain sd' p' where y: "y \<in> set (queued b sd' p')" by (auto simp: in_all_nodes)
    have "y \<in> set (queued (cancel ?i b) sd' p')"
      using y yn by (auto simp: q')
    then show "y \<in> set (all_nodes (cancel ?i b))" by (auto simp: in_all_nodes)
  qed
qed

lemma total_qty_sum:
  "book_inv b \<Longrightarrow> total_qty b = (\<Sum>n\<in>set (all_nodes b). qty (node_order b n))"
  using distinct_all_nodes [of b]
  by (simp add: total_qty_def resting_def node_order_def comp_def sum_list_distinct_conv_sum_set)

lemma pos_qty_nodes: "pos_qty b = (\<forall>n\<in>set (all_nodes b). 0 < qty (node_order b n))"
  by (simp add: pos_qty_def resting_def node_order_def)

lemma fill_book_inv:
  assumes "book_inv b"
  shows "book_inv (fill_book x y b)"
proof -
  define q where "q = min (qty (orders b x)) (qty (orders b y))"
  show ?thesis
    unfolding fill_book_def Let_def q_def [symmetric]
    using assms by (simp add: set_qty_inv cancel_inv)
qed

lemma fill_book_struct:
  assumes inv: "book_inv b"
    and bb: "bestBuy b = Some ba" and bs: "bestSell b = Some sa"
  shows "ba \<noteq> sa"
    and "orders (fill_book ba sa b) =
           (orders b)(ba := (orders b ba)\<lparr>qty := js_sub (qty (orders b ba)) (min (qty (orders b ba)) (qty (orders b sa)))\<rparr>,
                      sa := (orders b sa)\<lparr>qty := js_sub (qty (orders b sa)) (min (qty (orders b ba)) (qty (orders b sa)))\<rparr>)"
    and "\<And>y. nvalue (nodes (fill_book ba sa b) y) = nvalue (nodes b y)"
    and "set (all_nodes (fill_book ba sa b)) =
           {n \<in> set (all_nodes b).
              \<not> (nvalue (nodes b n) = ba \<and> qty (orders (fill_book ba sa b) ba) = 0) \<and>
              \<not> (nvalue (nodes b n) = sa \<and> qty (orders (fill_book ba sa b) sa) = 0)}"
    and "qty (orders (fill_book ba sa b) ba) = 0 \<Longrightarrow>
           ba \<notin> set (resting (fill_book ba sa b)) \<and>
           map_of (index (fill_book ba sa b)) (oid (orders b ba)) = None"
    and "qty (orders (fill_book ba sa b) sa) = 0 \<Longrightarrow>
           sa \<notin> set (resting (fill_book ba sa b)) \<and>
           map_of (index (fill_book ba sa b)) (oid (orders b sa)) = None"
    and "\<exists>nb\<in>set (all_nodes b). \<exists>ns\<in>set (all_nodes b). nb \<noteq> ns \<and>
           nvalue (nodes b nb) = ba \<and> nvalue (nodes b ns) = sa"
proof -
  let ?N = "set (all_nodes b)"
  define q where "q = min (qty (orders b ba)) (qty (orders b sa))"
  from best_node(1) [OF inv bb] obtain nb where
    nb: "nb \<in> ?N" "nvalue (nodes b nb) = ba" "side (orders b ba) = BUY"
    by (auto simp: node_ok_def node_order_def)
  from best_node(2) [OF inv bs] obtain ns where
    ns: "ns \<in> ?N" "nvalue (nodes b ns) = sa" "side (orders b sa) = SELL"
    by (auto simp: node_ok_def node_order_def)
  show ne: "ba \<noteq> sa" using nb(3) ns(3) by auto
  then have nn: "nb \<noteq> ns" using nb(2) ns(2) by auto
  show "\<exists>nb\<in>set (all_nodes b). \<exists>ns\<in>set (all_nodes b). nb \<noteq> ns \<and>
           nvalue (nodes b nb) = ba \<and> nvalue (nodes b ns) = sa"
    using nb(1,2) ns(1,2) nn by blast
  define b2 where "b2 = set_qty sa (js_sub (qty (orders b sa)) q)
      (set_qty ba (js_sub (qty (orders b ba)) q) b)"
  have o2: "orders b2 = (orders b)(ba := (orders b ba)\<lparr>qty := js_sub (qty (orders b ba)) q\<rparr>,
                      sa := (orders b sa)\<lparr>qty := js_sub (qty (orders b sa)) q\<rparr>)"
    using ne by (simp add: b2_def set_qty_def)
  have inv2: "book_inv b2" using inv by (simp add: b2_def set_qty_inv)
  have an2: "all_nodes b2 = all_nodes b" by (simp add: b2_def)
  have nd2: "nodes b2 = nodes b" by (simp add: b2_def)
  define b3 where "b3 = (if qty (orders b2 ba) = 0 then cancel (oid (orders b2 ba)) b2 else b2)"
  define b4 where "b4 = (if qty (orders b3 sa) = 0 then cancel (oid (orders b3 sa)) b3 else b3)"
  have fb: "fill_book ba sa b = b4"
    unfolding fill_book_def Let_def q_def [symmetric]
    using ne by (simp add: b4_def b3_def b2_def orders_set_qty)
  have o3: "orders b3 = orders b2" by (simp add: b3_def)
  have o4: "orders b4 = orders b2" by (simp add: b4_def o3)
  have nob: "orders b2 ba = node_order b2 nb" by (simp add: node_order_def nd2 nb(2))
  have nb2: "nb \<in> set (all_nodes b2)" using nb(1) by (simp add: an2)
  note cb = cancel_node [OF inv2 nb2, folded nob]
  have inv3: "book_inv b3" using inv2 cb(1) by (simp add: b3_def)
  have an3: "set (all_nodes b3) = ?N - (if qty (orders b2 ba) = 0 then {nb} else {})"
    using cb(2) by (simp add: b3_def an2)
  have nv3: "nvalue (nodes b3 y) = nvalue (nodes b y)" for y
    using cb(3) [of y] by (simp add: b3_def nd2)
  have nos: "orders b3 sa = node_order b3 ns" by (simp add: node_order_def nv3 ns(2))
  have ns3: "ns \<in> set (all_nodes b3)" using ns(1) nn by (simp add: an3)
  note cs = cancel_node [OF inv3 ns3, folded nos]
  have an4: "set (all_nodes b4) = ?N - (if qty (orders b2 ba) = 0 then {nb} else {})
                 - (if qty (orders b2 sa) = 0 then {ns} else {})"
    using cs(2) by (simp add: b4_def an3 o3)
  have nv4: "nvalue (nodes b4 y) = nvalue (nodes b y)" for y
    using cs(3) [of y] by (simp add: b4_def nv3)
  show "\<And>y. nvalue (nodes (fill_book ba sa b) y) = nvalue (nodes b y)"
    by (simp add: fb nv4)
  have inj: "n = nb" if "n \<in> ?N" "nvalue (nodes b n) = ba" for n
    using node_value_inj [OF inv that(1) nb(1)] that(2) nb(2) by simp
  have inj': "n = ns" if "n \<in> ?N" "nvalue (nodes b n) = sa" for n
    using node_value_inj [OF inv that(1) ns(1)] that(2) ns(2) by simp
  show "set (all_nodes (fill_book ba sa b)) =
           {n \<in> set (all_nodes b).
              \<not> (nvalue (nodes b n) = ba \<and> qty (orders (fill_book ba sa b) ba) = 0) \<and>
              \<not> (nvalue (nodes b n) = sa \<and> qty (orders (fill_book ba sa b) sa) = 0)}"
  proof (intro set_eqI iffI)
    fix n assume "n \<in> set (all_nodes (fill_book ba sa b))"
    then have n: "n \<in> ?N" "qty (orders b2 ba) = 0 \<longrightarrow> n \<noteq> nb" "qty (orders b2 sa) = 0 \<longrightarrow> n \<noteq> ns"
      by (auto simp: fb an4 split: if_splits)
    have "\<not> (nvalue (nodes b n) = ba \<and> qty (orders b2 ba) = 0)" using inj [OF n(1)] n(2) by blast
    moreover have "\<not> (nvalue (nodes b n) = sa \<and> qty (orders b2 sa) = 0)"
      using inj' [OF n(1)] n(3) by blast
    ultimately show "n \<in> {n \<in> set (all_nodes b).
              \<not> (nvalue (nodes b n) = ba \<and> qty (orders (fill_book ba sa b) ba) = 0) \<and>
              \<not> (nvalue (nodes b n) = sa \<and> qty (orders (fill_book ba sa b) sa) = 0)}"
      using n(1) by (simp add: fb o4)
  next
    fix n assume "n \<in> {n \<in> set (all_nodes b).
              \<not> (nvalue (nodes b n) = ba \<and> qty (orders (fill_book ba sa b) ba) = 0) \<and>
              \<not> (nvalue (nodes b n) = sa \<and> qty (orders (fill_book ba sa b) sa) = 0)}"
    then have n: "n \<in> ?N" "\<not> (nvalue (nodes b n) = ba \<and> qty (orders b2 ba) = 0)"
      "\<not> (nvalue (nodes b n) = sa \<and> qty (orders b2 sa) = 0)"
      by (simp_all add: fb o4)
    from n(2) nb(2) have "qty (orders b2 ba) = 0 \<longrightarrow> n \<noteq> nb" by blast
    moreover from n(3) ns(2) have "qty (orders b2 sa) = 0 \<longrightarrow> n \<noteq> ns" by blast
    ultimately show "n \<in> set (all_nodes (fill_book ba sa b))"
      using n(1) by (simp add: fb an4)
  qed
  show "orders (fill_book ba sa b) =
           (orders b)(ba := (orders b ba)\<lparr>qty := js_sub (qty (orders b ba)) (min (qty (orders b ba)) (qty (orders b sa)))\<rparr>,
                      sa := (orders b sa)\<lparr>qty := js_sub (qty (orders b sa)) (min (qty (orders b ba)) (qty (orders b sa)))\<rparr>)"
    by (simp add: fb o4 o2 q_def)
  have rest4: "a \<in> set (resting b4) \<longleftrightarrow> (\<exists>n\<in>set (all_nodes b4). nvalue (nodes b n) = a)" for a
    by (auto simp: resting_def nv4)
  have ix3: "map_of (index b3) (oid (orders b ba)) = None" if "qty (orders b2 ba) = 0"
    using cb(4) that ne by (simp add: b3_def o2)
  have ix4: "map_of (index b4) i = None" if "map_of (index b3) i = None" for i
  proof (cases "qty (orders b3 sa) = 0")
    case True
    from ns3 obtain sd p where "ns \<in> set (queued b3 sd p)" by (auto simp: in_all_nodes)
    from book_inv_node [OF inv3 this]
    have "map_of (index b3) (oid (orders b3 sa)) = Some \<lparr>ref_order = nvalue (nodes b3 ns), ref_node = ns\<rparr>"
      by (simp add: node_ok_def nos)
    from cancel_props(7) [OF inv3 this] that True show ?thesis by (simp add: b4_def)
  next
    case False
    with that show ?thesis by (simp add: b4_def)
  qed
  show "ba \<notin> set (resting (fill_book ba sa b)) \<and>
        map_of (index (fill_book ba sa b)) (oid (orders b ba)) = None"
    if "qty (orders (fill_book ba sa b) ba) = 0"
  proof -
    from that have z: "qty (orders b2 ba) = 0" by (simp add: fb o4)
    have "ba \<notin> set (resting b4)"
    proof
      assume "ba \<in> set (resting b4)"
      then obtain n where n: "n \<in> set (all_nodes b4)" "nvalue (nodes b n) = ba" by (auto simp: rest4)
      then have "n \<in> ?N" by (auto simp: an4)
      from inj [OF this n(2)] n(1) z show False by (auto simp: an4)
    qed
    with ix4 [OF ix3 [OF z]] show ?thesis by (simp add: fb)
  qed
  show "sa \<notin> set (resting (fill_book ba sa b)) \<and>
        map_of (index (fill_book ba sa b)) (oid (orders b sa)) = None"
    if "qty (orders (fill_book ba sa b) sa) = 0"
  proof -
    from that have z: "qty (orders b2 sa) = 0" by (simp add: fb o4)
    have "sa \<notin> set (resting b4)"
    proof
      assume "sa \<in> set (resting b4)"
      then obtain n where n: "n \<in> set (all_nodes b4)" "nvalue (nodes b n) = sa" by (auto simp: rest4)
      then have "n \<in> ?N" by (auto simp: an4)
      from inj' [OF this n(2)] n(1) z show False by (auto simp: an4 split: if_splits)
    qed
    moreover have "map_of (index b4) (oid (orders b sa)) = None"
      using cs(4) z by (simp add: b4_def o3 o2)
    ultimately show ?thesis by (simp add: fb)
  qed
qed

lemma fill_book_props:
  assumes inv: "book_inv b" and pos: "pos_qty b"
    and bb: "bestBuy b = Some ba" and bs: "bestSell b = Some sa"
  shows "pos_qty (fill_book ba sa b)"
    and "set (all_nodes (fill_book ba sa b)) \<subset> set (all_nodes b)"
    and "0 < min (qty (orders b ba)) (qty (orders b sa))"
    and "total_qty (fill_book ba sa b) =
           total_qty b - (qty (orders b ba) - qty (orders (fill_book ba sa b) ba))
                       - (qty (orders b sa) - qty (orders (fill_book ba sa b) sa))"
    and "0 \<le> qty (orders (fill_book ba sa b) ba)" and "0 \<le> qty (orders (fill_book ba sa b) sa)"
proof -
  let ?N = "set (all_nodes b)"
  let ?b' = "fill_book ba sa b"
  define q where "q = min (qty (orders b ba)) (qty (orders b sa))"
  note st = fill_book_struct [OF inv bb bs, folded q_def]
  from st(7) obtain nb ns where
    nb: "nb \<in> ?N" "nvalue (nodes b nb) = ba" and ns: "ns \<in> ?N" "nvalue (nodes b ns) = sa"
    and nn: "nb \<noteq> ns" by blast
  note ne = st(1)
  have pb: "0 < qty (orders b ba)" using pos nb by (auto simp: pos_qty_nodes node_order_def)
  have ps: "0 < qty (orders b sa)" using pos ns by (auto simp: pos_qty_nodes node_order_def)
  show qpos: "0 < min (qty (orders b ba)) (qty (orders b sa))" using pb ps by simp
  have qle: "q \<le> qty (orders b ba)" "q \<le> qty (orders b sa)" by (simp_all add: q_def)
  have qeq: "q = qty (orders b ba) \<or> q = qty (orders b sa)" by (auto simp: q_def min_def)
  have qb: "qty (orders ?b' ba) = js_sub (qty (orders b ba)) q" using ne by (simp add: st(2))
  have qs: "qty (orders ?b' sa) = js_sub (qty (orders b sa)) q" by (simp add: st(2))
  have q0: "qty (orders ?b' ba) = 0 \<or> qty (orders ?b' sa) = 0"
    using qeq by (auto simp: qb qs)
  show qge: "0 \<le> qty (orders ?b' ba)" "0 \<le> qty (orders ?b' sa)"
    using qle by (simp_all add: qb qs js_sub_nonneg)
  have inj: "n = nb" if "n \<in> ?N" "nvalue (nodes b n) = ba" for n
    using node_value_inj [OF inv that(1) nb(1)] that(2) nb(2) by simp
  have inj': "n = ns" if "n \<in> ?N" "nvalue (nodes b n) = sa" for n
    using node_value_inj [OF inv that(1) ns(1)] that(2) ns(2) by simp
  have no': "node_order ?b' n = orders ?b' (nvalue (nodes b n))" for n
    by (simp add: node_order_def st(3))
  have oth: "node_order ?b' n = node_order b n" if "n \<in> ?N" "n \<noteq> nb" "n \<noteq> ns" for n
  proof -
    have neq: "nvalue (nodes b n) \<noteq> ba" "nvalue (nodes b n) \<noteq> sa"
      using inj [OF that(1)] inj' [OF that(1)] that(2,3) by blast+
    have "node_order ?b' n = orders ?b' (nvalue (nodes b n))" by (rule no')
    also have "\<dots> = orders b (nvalue (nodes b n))" using neq by (simp add: st(2))
    finally show ?thesis by (simp add: node_order_def)
  qed
  have nob': "node_order ?b' nb = orders ?b' ba" "node_order ?b' ns = orders ?b' sa"
    by (simp_all add: no' nb(2) ns(2))
  have nob: "node_order b nb = orders b ba" "node_order b ns = orders b sa"
    by (simp_all add: node_order_def nb(2) ns(2))
  have sub: "set (all_nodes ?b') \<subseteq> ?N" by (auto simp: st(4))
  have "nb \<notin> set (all_nodes ?b') \<or> ns \<notin> set (all_nodes ?b')"
    using q0 nb(2) ns(2) by (auto simp: st(4))
  with sub nb(1) ns(1) show "set (all_nodes ?b') \<subset> ?N" by blast
  show "pos_qty ?b'"
    unfolding pos_qty_nodes
  proof
    fix n assume n: "n \<in> set (all_nodes ?b')"
    then have nN: "n \<in> ?N" using sub by blast
    show "0 < qty (node_order ?b' n)"
    proof (cases "n = nb")
      case True
      with n nb(2) have "qty (orders ?b' ba) \<noteq> 0" by (auto simp: st(4))
      with qge(1) show ?thesis using True by (simp add: nob')
    next
      case False
      show ?thesis
      proof (cases "n = ns")
        case True
        with n ns(2) have "qty (orders ?b' sa) \<noteq> 0" by (auto simp: st(4))
        with qge(2) show ?thesis using True by (simp add: nob')
      next
        case F2: False
        from pos nN have "0 < qty (node_order b n)" by (simp add: pos_qty_nodes)
        with oth [OF nN False F2] show ?thesis by simp
      qed
    qed
  qed
  define db where "db = qty (orders b ba) - qty (orders ?b' ba)"
  define ds where "ds = qty (orders b sa) - qty (orders ?b' sa)"
  have g: "qty (node_order ?b' n) =
      qty (node_order b n) - (if n = nb then db else 0) - (if n = ns then ds else 0)" if "n \<in> ?N" for n
  proof (cases "n = nb")
    case True
    then show ?thesis using nn by (simp add: nob' nob db_def)
  next
    case False
    show ?thesis
    proof (cases "n = ns")
      case True
      then show ?thesis using nn by (simp add: nob' nob ds_def)
    next
      case F2: False
      with False oth [OF that False F2] show ?thesis by simp
    qed
  qed
  have inv': "book_inv ?b'" by (rule fill_book_inv [OF inv])
  have fin: "finite ?N" by simp
  have z: "\<forall>n\<in>?N - set (all_nodes ?b'). qty (node_order ?b' n) = 0"
    by (auto simp: st(4) no')
  have "total_qty ?b' = (\<Sum>n\<in>set (all_nodes ?b'). qty (node_order ?b' n))"
    by (rule total_qty_sum [OF inv'])
  also have "\<dots> = (\<Sum>n\<in>?N. qty (node_order ?b' n))"
    by (rule sum.mono_neutral_left [OF fin sub z])
  also have "\<dots> = (\<Sum>n\<in>?N. qty (node_order b n) - (if n = nb then db else 0) - (if n = ns then ds else 0))"
    by (rule sum.cong) (simp_all add: g)
  also have "\<dots> = (\<Sum>n\<in>?N. qty (node_order b n)) - (\<Sum>n\<in>?N. if n = nb then db else 0)
        - (\<Sum>n\<in>?N. if n = ns then ds else 0)"
    by (simp add: sum_subtractf)
  also have "\<dots> = total_qty b - db - ds"
    using nb(1) ns(1) by (simp add: total_qty_sum [OF inv] sum.delta)
  finally show "total_qty ?b' =
           total_qty b - (qty (orders b ba) - qty (orders ?b' ba))
                       - (qty (orders b sa) - qty (orders ?b' sa))"
    by (simp add: db_def ds_def)
qed

section \<open>The matching loop returns\<close>

lemma best_price:
  assumes inv: "book_inv b"
  shows "bestBuy b = Some a \<Longrightarrow> price (orders b a) = Max (fst ` set (buys b))"
    and "bestSell b = Some a \<Longrightarrow> price (orders b a) = Min (fst ` set (sells b))"
  using best_node [OF inv, of a] by (auto simp: node_ok_def node_order_def)

lemma match_exit:
  assumes inv: "book_inv (book e)" and nc: "no_crossable_pair (book e)"
  shows "match m e = Some e"
proof (cases "bestBuy (book e)")
  case None
  then show ?thesis by (subst match.simps) simp
next
  case (Some ba)
  note bb = this
  show ?thesis
  proof (cases "bestSell (book e)")
    case None
    then show ?thesis using bb by (subst match.simps) simp
  next
    case (Some sa)
    from bb have "buys (book e) \<noteq> []" using bestBuy_None [OF inv] by auto
    moreover from Some have "sells (book e) \<noteq> []" using bestSell_None [OF inv] by auto
    ultimately have "price (orders (book e) ba) < price (orders (book e) sa)"
      using nc best_price [OF inv] bb Some by (simp add: no_crossable_pair_def)
    then show ?thesis using bb Some by (subst match.simps) simp
  qed
qed

lemma match_continue:
  assumes inv: "book_inv (book e)" and nc: "\<not> no_crossable_pair (book e)"
  shows "\<exists>ba sa. bestBuy (book e) = Some ba \<and> bestSell (book e) = Some sa \<and>
           match m e = match m (match_step m ba sa e)"
proof -
  from nc have ne: "buys (book e) \<noteq> []" "sells (book e) \<noteq> []"
    and le: "Min (fst ` set (sells (book e))) \<le> Max (fst ` set (buys (book e)))"
    by (auto simp: no_crossable_pair_def)
  from ne obtain ba sa where b: "bestBuy (book e) = Some ba" "bestSell (book e) = Some sa"
    using bestBuy_None [OF inv] bestSell_None [OF inv] by auto
  with le have "\<not> price (orders (book e) ba) < price (orders (book e) sa)"
    using best_price [OF inv] by simp
  with b have "match m e = match m (match_step m ba sa e)"
    by (subst match.simps) simp
  with b show ?thesis by blast
qed

lemma index_keys_cancel: "fst ` set (index (cancel i b)) \<subseteq> fst ` set (index b)"
  using dom_delete_subset [of i "index b"]
  by (auto simp: cancel_def Let_def split: option.splits prod.splits)

lemma index_keys_fill: "fst ` set (index (fill_book x y b)) \<subseteq> fst ` set (index b)"
proof -
  define q where "q = min (qty (orders b x)) (qty (orders b y))"
  define b2 where "b2 = set_qty y (js_sub (qty (orders (set_qty x (js_sub (qty (orders b x)) q) b) y)) q)
       (set_qty x (js_sub (qty (orders b x)) q) b)"
  define b3 where "b3 = (if qty (orders b2 x) = 0 then cancel (oid (orders b2 x)) b2 else b2)"
  define b4 where "b4 = (if qty (orders b3 y) = 0 then cancel (oid (orders b3 y)) b3 else b3)"
  have fb: "fill_book x y b = b4"
    unfolding fill_book_def Let_def q_def [symmetric] b4_def b3_def b2_def by (rule refl)
  have "fst ` set (index b4) \<subseteq> fst ` set (index b3)"
    using index_keys_cancel [of "oid (orders b3 y)" b3] by (simp add: b4_def)
  also have "\<dots> \<subseteq> fst ` set (index b2)"
    using index_keys_cancel [of "oid (orders b2 x)" b2] by (simp add: b3_def)
  also have "index b2 = index b" by (simp add: b2_def)
  finally show ?thesis by (simp add: fb)
qed

lemma match_total:
  assumes "book_inv (book e)" and "pos_qty (book e)"
  shows "\<exists>e'. match m e = Some e' \<and> book_inv (book e') \<and> pos_qty (book e') \<and>
              no_crossable_pair (book e') \<and>
              fst ` set (index (book e')) \<subseteq> fst ` set (index (book e))"
  using assms
proof (induction "card (set (all_nodes (book e)))" arbitrary: e rule: less_induct)
  case less
  show ?case
  proof (cases "no_crossable_pair (book e)")
    case True
    with match_exit [OF less.prems(1) True] less.prems show ?thesis by auto
  next
    case False
    from match_continue [OF less.prems(1) False] obtain ba sa where
      b: "bestBuy (book e) = Some ba" "bestSell (book e) = Some sa"
      and m: "match m e = match m (match_step m ba sa e)" by blast
    let ?e = "match_step m ba sa e"
    note fp = fill_book_props [OF less.prems b]
    have "card (set (all_nodes (book ?e))) < card (set (all_nodes (book e)))"
      using fp(2) by (simp add: book_match_step psubset_card_mono)
    moreover have "book_inv (book ?e)" using less.prems(1) by (simp add: book_match_step fill_book_inv)
    moreover have "pos_qty (book ?e)" using fp(1) by (simp add: book_match_step)
    ultimately obtain e' where e': "match m ?e = Some e'" "book_inv (book e')" "pos_qty (book e')"
      "no_crossable_pair (book e')" "fst ` set (index (book e')) \<subseteq> fst ` set (index (book ?e))"
      using less.hyps [of ?e] by blast
    moreover have "fst ` set (index (book ?e)) \<subseteq> fst ` set (index (book e))"
      using index_keys_fill by (simp add: book_match_step)
    ultimately show ?thesis using m by auto
  qed
qed

section \<open>Quantities, termination and the invariant: the claims\<close>

lemma crossed_inv: "book_inv (book crossed_engine)" by code_simp

lemma crossed_pos: "pos_qty (book crossed_engine)" by code_simp

lemma crossed_best: "bestBuy (book crossed_engine) = Some 0" "bestSell (book crossed_engine) = Some (Suc 0)"
  by code_simp+


lemma crossed_qty: "qty (orders (book crossed_engine) 0) = 6" "qty (orders (book crossed_engine) (Suc 0)) = 10"
  by code_simp+

lemma crossed_resting: "set (resting (book crossed_engine)) = {0, Suc 0}" by code_simp


lemma big_facts:
  "book_inv (book big_engine)" "pos_qty (book big_engine)"
  "bestBuy (book big_engine) = Some 0" "bestSell (book big_engine) = Some (Suc 0)"
  by code_simp+











text \<open>
  C8, as stated, does not hold of the code. Two resting bids that carry the same id
  (nothing in \<open>add\<close> or \<open>process\<close> rejects the second) and an incoming ask: the first bid
  is filled to zero, the cancel by id removes the other bid's node, and the order with
  quantity zero stays queued. And a bid of 9007199254740994 against an ask of 1: the
  subtraction of doubles leaves 9007199254740992, not the quantity less the traded
  quantity.
\<close>

theorem fill_not_exact:
  "pos_qty (book dup_engine) \<and>
   bestBuy (book dup_engine) = Some 0 \<and> bestSell (book dup_engine) = Some 2 \<and>
   qty (orders (book (match_step Live 0 2 dup_engine)) 0) = 0 \<and>
   0 \<in> set (resting (book (match_step Live 0 2 dup_engine))) \<and>
   book_inv (book big_engine) \<and> pos_qty (book big_engine) \<and>
   bestBuy (book big_engine) = Some 0 \<and> bestSell (book big_engine) = Some (Suc 0) \<and>
   qty (orders (book big_engine) 0) = 9007199254740994 \<and>
   min (qty (orders (book big_engine) 0)) (qty (orders (book big_engine) (Suc 0))) = 1 \<and>
   qty (orders (book (match_step Live 0 (Suc 0) big_engine)) 0) = 9007199254740992"
  by code_simp

text \<open>
  C8, amended. In a book that satisfies the invariant \<open>book_inv\<close> (so that the ids of the
  resting orders are pairwise distinct and indexed) and whose resting orders all have a
  positive remaining quantity, one iteration on the best buy and best sell order
  sets the remaining quantity of each of the two to the double nearest to its quantity
  less the traded quantity, the minimum of the two; for an order whose quantity is at
  most \<open>2^53\<close> that is exactly its quantity less the traded quantity. Every other order
  object is untouched; the two quantities stay non-negative, so no quantity that was
  non-negative becomes negative; and after the iteration every order still resting has
  a positive quantity, so that an order that reached zero is out of the queues, and
  its id is out of the id index.
\<close>

theorem fill_decrements:
  assumes "book_inv (book e)" and "pos_qty (book e)"
    and "bestBuy (book e) = Some buy" and "bestSell (book e) = Some sell"
  shows
    "qty (orders (book (match_step m buy sell e)) buy) =
       js_sub (qty (orders (book e) buy)) (min (qty (orders (book e) buy)) (qty (orders (book e) sell))) \<and>
     qty (orders (book (match_step m buy sell e)) sell) =
       js_sub (qty (orders (book e) sell)) (min (qty (orders (book e) buy)) (qty (orders (book e) sell))) \<and>
     (qty (orders (book e) buy) \<le> 9007199254740992 \<longrightarrow>
        qty (orders (book (match_step m buy sell e)) buy) =
          qty (orders (book e) buy) - min (qty (orders (book e) buy)) (qty (orders (book e) sell))) \<and>
     (qty (orders (book e) sell) \<le> 9007199254740992 \<longrightarrow>
        qty (orders (book (match_step m buy sell e)) sell) =
          qty (orders (book e) sell) - min (qty (orders (book e) buy)) (qty (orders (book e) sell))) \<and>
     (\<forall>a. a \<noteq> buy \<and> a \<noteq> sell \<longrightarrow>
          orders (book (match_step m buy sell e)) a = orders (book e) a) \<and>
     (\<forall>a. 0 \<le> qty (orders (book e) a) \<longrightarrow> 0 \<le> qty (orders (book (match_step m buy sell e)) a)) \<and>
     (\<forall>a\<in>set (resting (book (match_step m buy sell e))).
          0 < qty (orders (book (match_step m buy sell e)) a)) \<and>
     (\<forall>a\<in>set (resting (book e)). qty (orders (book (match_step m buy sell e)) a) = 0 \<longrightarrow>
          a \<notin> set (resting (book (match_step m buy sell e))) \<and>
          map_of (index (book (match_step m buy sell e))) (oid (orders (book e) a)) = None)"
proof -
  let ?b = "book e"
  let ?b' = "book (match_step m buy sell e)"
  define q where "q = min (qty (orders ?b buy)) (qty (orders ?b sell))"
  note st = fill_book_struct [OF assms(1,3,4), folded book_match_step [of m buy sell e] q_def]
  note fp = fill_book_props [OF assms, folded book_match_step [of m buy sell e] q_def]
  have q0: "0 \<le> q" using fp(3) by simp
  have qle: "q \<le> qty (orders ?b buy)" "q \<le> qty (orders ?b sell)" by (simp_all add: q_def)
  have qb: "qty (orders ?b' buy) = js_sub (qty (orders ?b buy)) q" using st(1) by (simp add: st(2))
  have qs: "qty (orders ?b' sell) = js_sub (qty (orders ?b sell)) q" by (simp add: st(2))
  have xb: "qty (orders ?b' buy) = qty (orders ?b buy) - q" if "qty (orders ?b buy) \<le> 9007199254740992"
    unfolding qb by (rule js_sub_exact [OF q0 qle(1) that])
  have xs: "qty (orders ?b' sell) = qty (orders ?b sell) - q" if "qty (orders ?b sell) \<le> 9007199254740992"
    unfolding qs by (rule js_sub_exact [OF q0 qle(2) that])
  have oth: "orders ?b' a = orders ?b a" if "a \<noteq> buy" "a \<noteq> sell" for a
    using that by (simp add: st(2))
  have nonneg: "0 \<le> qty (orders ?b' a)" if "0 \<le> qty (orders ?b a)" for a
  proof (cases "a = buy \<or> a = sell")
    case True
    then show ?thesis using fp(5,6) by auto
  next
    case False
    then show ?thesis using that oth by simp
  qed
  have pos': "\<forall>a\<in>set (resting ?b'). 0 < qty (orders ?b' a)"
    using fp(1) by (simp add: pos_qty_def)
  have gone: "a \<notin> set (resting ?b') \<and> map_of (index ?b') (oid (orders ?b a)) = None"
    if a: "a \<in> set (resting ?b)" and z: "qty (orders ?b' a) = 0" for a
  proof -
    have pa: "0 < qty (orders ?b a)" using assms(2) a by (simp add: pos_qty_def)
    have "a = buy \<or> a = sell"
    proof (rule ccontr)
      assume "\<not> (a = buy \<or> a = sell)"
      then have "orders ?b' a = orders ?b a" using oth by simp
      with z pa show False by simp
    qed
    then show ?thesis
    proof
      assume ab: "a = buy"
      with z st(5) show ?thesis by simp
    next
      assume as: "a = sell"
      with z st(6) show ?thesis by simp
    qed
  qed
  from qb qs xb xs oth nonneg pos' gone show ?thesis unfolding q_def by blast
qed

theorem fill_decrements_witness:
  "book_inv (book crossed_engine) \<and> pos_qty (book crossed_engine) \<and>
   bestBuy (book crossed_engine) = Some 0 \<and> bestSell (book crossed_engine) = Some (Suc 0) \<and>
   qty (orders (book (match_step Live 0 (Suc 0) crossed_engine)) 0) = 0 \<and>
   qty (orders (book (match_step Live 0 (Suc 0) crossed_engine)) (Suc 0)) = 4 \<and>
   0 \<notin> set (resting (book (match_step Live 0 (Suc 0) crossed_engine))) \<and>
   map_of (index (book (match_step Live 0 (Suc 0) crossed_engine))) (oid (orders (book crossed_engine) 0)) = None"
  using fill_decrements [OF crossed_inv crossed_pos crossed_best, of Live]
    crossed_inv crossed_pos crossed_best crossed_qty crossed_resting
  by simp




text \<open>
  C6. The invariant \<open>book_inv\<close> (no empty price level; every queued node carries an
  order of the level's side and price whose id the index maps to this order and this
  node; every index entry's handle is a node of the level for its order's side and
  price; the level objects are well-formed linked lists) holds of the empty book and is
  preserved by \<open>add\<close> of an allocated order whose id is not in the index, by \<open>cancel\<close> of
  any id and by an iteration of the matching loop. Under the invariant no node is
  queued twice, in one level or in two, and no order object is carried by two queued
  nodes.
\<close>

theorem book_inv_preserved:
  "book_inv new_OrderBook \<and>
   (book_inv b \<and> map_of (index b) (oid (orders b a)) = None \<and> a < next_order b \<longrightarrow>
      book_inv (add a b)) \<and>
   (book_inv b \<longrightarrow> book_inv (cancel orderId b)) \<and>
   (book_inv (book e) \<longrightarrow> book_inv (book (match_step m buy sell e))) \<and>
   (book_inv b \<longrightarrow> distinct (all_nodes b) \<and> distinct (resting b))"
  using book_inv_empty add_props(1) [of b a] cancel_inv [of b orderId]
    fill_book_inv [of "book e" buy sell] distinct_all_nodes [of b] distinct_resting [of b]
  by (simp add: book_match_step)

lemma one_order_inv: "book_inv (new_order (mk_order ''b1'' BUY 10 100) new_OrderBook)"
  by code_simp

lemma one_order_fresh:
  "map_of (index (new_order (mk_order ''b1'' BUY 10 100) new_OrderBook))
     (oid (orders (new_order (mk_order ''b1'' BUY 10 100) new_OrderBook) 0)) = None \<and>
   0 < next_order (new_order (mk_order ''b1'' BUY 10 100) new_OrderBook)"
  by code_simp

theorem book_inv_preserved_witness:
  "book_inv new_OrderBook \<and> book_inv one_bid \<and> book_inv (cancel ''b1'' one_bid) \<and>
   book_inv (book crossed_engine) \<and> book_inv (book (match_step Live 0 (Suc 0) crossed_engine)) \<and>
   distinct (resting one_bid)"
proof -
  have 1: "book_inv one_bid"
    using book_inv_preserved [of "new_order (mk_order ''b1'' BUY 10 100) new_OrderBook" 0]
      one_order_inv one_order_fresh by (simp add: one_bid_def)
  from 1 book_inv_preserved [of one_bid _ "''b1''" crossed_engine Live 0 "Suc 0"] crossed_inv
  show ?thesis by simp
qed

section \<open>Allocation and insertion of a valid order\<close>

lemma queued_new_order [simp]: "queued (new_order ord b) = queued b"
  by (intro ext) (simp add: queued_def new_order_def side_levels_def split: option.split)

lemma new_order_sel [simp]:
  "nodes (new_order ord b) = nodes b" "index (new_order ord b) = index b"
  "buys (new_order ord b) = buys b" "sells (new_order ord b) = sells b"
  "next_node (new_order ord b) = next_node b" "next_order (new_order ord b) = Suc (next_order b)"
  "side_levels sd (new_order ord b) = side_levels sd b"
  "orders (new_order ord b) (next_order b) = ord"
  by (simp_all add: new_order_def side_levels_def)

lemma orders_new_order: "a < next_order b \<Longrightarrow> orders (new_order ord b) a = orders b a"
  by (simp add: new_order_def)

lemma all_nodes_new_order [simp]: "all_nodes (new_order ord b) = all_nodes b"
  by (simp add: all_nodes_def)

lemma resting_new_order [simp]: "resting (new_order ord b) = resting b"
  by (simp add: resting_def)

lemma resting_allocated:
  assumes inv: "book_inv b" and a: "a \<in> set (resting b)"
  shows "a < next_order b"
proof -
  from a obtain n where n: "n \<in> set (all_nodes b)" "a = nvalue (nodes b n)"
    by (auto simp: resting_def)
  then obtain sd p where "n \<in> set (queued b sd p)" by (auto simp: in_all_nodes)
  from book_inv_node [OF inv this] n(2) show ?thesis by (simp add: node_ok_def)
qed

lemma new_order_inv:
  assumes inv: "book_inv b"
  shows "book_inv (new_order ord b)"
proof (rule book_invI)
  let ?b = "new_order ord b"
  show "distinct (map fst (buys ?b))" "distinct (map fst (sells ?b))" "distinct (map fst (index ?b))"
    using inv by (simp_all add: book_inv_def)
  have nok: "node_ok ?b sd p n" if "n \<in> set (queued b sd p)" for sd p n
  proof -
    from book_inv_node [OF inv that] have ok: "node_ok b sd p n" .
    then have "nvalue (nodes b n) < next_order b" by (simp add: node_ok_def)
    then have "node_order ?b n = node_order b n" by (simp add: node_order_def orders_new_order)
    with ok show ?thesis by (simp add: node_ok_def)
  qed
  show "level_ok ?b sd p" if l: "map_of (side_levels sd ?b) p = Some l" for sd p l
  proof -
    from l have l0: "map_of (side_levels sd b) p = Some l" by simp
    from book_inv_level [OF inv l0] l0 nok show ?thesis by (simp add: level_ok_def)
  qed
  show "ref_ok ?b i" if r: "map_of (index ?b) i = Some r" for i r
  proof -
    from r have r0: "map_of (index b) i = Some r" by simp
    note rf = book_inv_ref [OF inv r0]
    from book_inv_node [OF inv rf(3)] rf(2) have "ref_order r < next_order b"
      by (simp add: node_ok_def)
    then have "orders ?b (ref_order r) = orders b (ref_order r)" by (rule orders_new_order)
    with rf r0 show ?thesis by (simp add: ref_ok_def)
  qed
qed

lemma new_order_pos:
  assumes inv: "book_inv b" and pos: "pos_qty b"
  shows "pos_qty (new_order ord b)"
  unfolding pos_qty_def
proof
  fix a assume a: "a \<in> set (resting (new_order ord b))"
  then have "a \<in> set (resting b)" by simp
  with resting_allocated [OF inv] pos show "0 < qty (orders (new_order ord b) a)"
    by (simp add: orders_new_order pos_qty_def)
qed

lemma add_all_nodes:
  assumes inv: "book_inv b" and fresh: "map_of (index b) (oid (orders b a)) = None"
    and alloc: "a < next_order b"
  shows "set (all_nodes (add a b)) = insert (next_node b) (set (all_nodes b))"
proof (intro set_eqI iffI)
  note q = add_props(2) [OF assms]
  fix n assume "n \<in> set (all_nodes (add a b))"
  then obtain sd p where "n \<in> set (queued (add a b) sd p)" by (auto simp: in_all_nodes)
  then have "n = next_node b \<or> n \<in> set (queued b sd p)"
    by (auto simp: q split: if_splits)
  then show "n \<in> insert (next_node b) (set (all_nodes b))" by (auto simp: in_all_nodes)
next
  note q = add_props(2) [OF assms]
  fix n assume "n \<in> insert (next_node b) (set (all_nodes b))"
  then consider "n = next_node b" | sd p where "n \<in> set (queued b sd p)"
    by (auto simp: in_all_nodes)
  then show "n \<in> set (all_nodes (add a b))"
  proof cases
    case 1
    then have "n \<in> set (queued (add a b) (side (orders b a)) (price (orders b a)))"
      by (simp add: q)
    then show ?thesis unfolding in_all_nodes by blast
  next
    case 2
    then have "n \<in> set (queued (add a b) sd p)" by (auto simp: q)
    then show ?thesis unfolding in_all_nodes by blast
  qed
qed

lemma add_pos:
  assumes inv: "book_inv b" and fresh: "map_of (index b) (oid (orders b a)) = None"
    and alloc: "a < next_order b" and pos: "pos_qty b" and q: "0 < qty (orders b a)"
  shows "pos_qty (add a b)"
  unfolding pos_qty_nodes
proof
  fix n assume "n \<in> set (all_nodes (add a b))"
  then have n: "n = next_node b \<or> n \<in> set (all_nodes b)"
    by (simp add: add_all_nodes [OF inv fresh alloc])
  note ap = add_props [OF inv fresh alloc]
  have no: "node_order (add a b) n = (if n = next_node b then orders b a else node_order b n)"
    by (simp add: node_order_def ap(3) ap(4))
  show "0 < qty (node_order (add a b) n)"
  proof (cases "n = next_node b")
    case True
    with q no show ?thesis by simp
  next
    case False
    with n pos no show ?thesis by (simp add: pos_qty_nodes)
  qed
qed

lemma index_keys_add: "fst ` set (index (add a b)) = insert (oid (orders b a)) (fst ` set (index b))"
  by (auto simp: add_def Let_def dom_update split: option.splits prod.splits)

section \<open>Live and replay runs\<close>

lemma process_live: "process ev live e = process_mode ev Live e"
  by (simp add: process_def live_def)

lemma process_replay: "process ev replay e = process_mode ev Replay e"
  by (simp add: process_def replay_def)

lemma wal_match_step:
  "\<exists>ts. wal (match_step m buy sell e) = wal e @ ts \<and> (\<forall>t\<in>set ts. is_trade t) \<and>
        (m = Replay \<longrightarrow> ts = [])"
proof -
  define q where "q = min (qty (orders (book e) buy)) (qty (orders (book e) sell))"
  show ?thesis
    unfolding match_step_def Let_def q_def [symmetric]
    by (cases m) (simp_all add: emit_def publish_def wal_append_def book_cancel_def)
qed

lemma eventBus_match_step: "eventBus (match_step Replay buy sell e) = eventBus e"
proof -
  define q where "q = min (qty (orders (book e) buy)) (qty (orders (book e) sell))"
  show ?thesis
    unfolding match_step_def Let_def q_def [symmetric]
    by (simp add: emit_def publish_def wal_append_def book_cancel_def)
qed

lemma match_wal:
  assumes m: "match m e = Some e'"
  shows "\<exists>ts. wal e' = wal e @ ts \<and> (\<forall>t\<in>set ts. is_trade t) \<and> (m = Replay \<longrightarrow> ts = [])"
proof (rule match.raw_induct [where P = "\<lambda>m e e'. \<exists>ts. wal e' = wal e @ ts \<and>
    (\<forall>t\<in>set ts. is_trade t) \<and> (m = Replay \<longrightarrow> ts = [])", OF _ m], goal_cases)
  case (1 match m e e')
  show ?case
  proof (cases "bestBuy (book e)")
    case None
    with 1(2) show ?thesis by simp
  next
    case (Some ba)
    note bb = this
    show ?thesis
    proof (cases "bestSell (book e)")
      case None
      with 1(2) bb show ?thesis by simp
    next
      case (Some sa)
      show ?thesis
      proof (cases "price (orders (book e) ba) < price (orders (book e) sa)")
        case True
        with 1(2) bb Some show ?thesis by simp
      next
        case False
        with 1(2) bb Some have "match m (match_step m ba sa e) = Some e'" by simp
        from 1(1) [OF this] obtain ts where
          ts: "wal e' = wal (match_step m ba sa e) @ ts" "\<forall>t\<in>set ts. is_trade t" "m = Replay \<longrightarrow> ts = []"
          by blast
        from wal_match_step [of m ba sa e] obtain us where
          us: "wal (match_step m ba sa e) = wal e @ us" "\<forall>t\<in>set us. is_trade t" "m = Replay \<longrightarrow> us = []"
          by blast
        from ts us have "wal e' = wal e @ (us @ ts)" "\<forall>t\<in>set (us @ ts). is_trade t"
          "m = Replay \<longrightarrow> us @ ts = []" by auto
        then show ?thesis by blast
      qed
    qed
  qed
qed

lemma match_eventBus:
  assumes m: "match m e = Some e'"
  shows "m = Replay \<longrightarrow> eventBus e' = eventBus e"
proof (rule match.raw_induct [where P = "\<lambda>m e e'. m = Replay \<longrightarrow> eventBus e' = eventBus e",
    OF _ m], goal_cases)
  case (1 match m e e')
  show ?case
  proof (cases "bestBuy (book e)")
    case None
    with 1(2) show ?thesis by simp
  next
    case (Some ba)
    note bb = this
    show ?thesis
    proof (cases "bestSell (book e)")
      case None
      with 1(2) bb show ?thesis by simp
    next
      case (Some sa)
      show ?thesis
      proof (cases "price (orders (book e) ba) < price (orders (book e) sa)")
        case True
        with 1(2) bb Some show ?thesis by simp
      next
        case False
        with 1(2) bb Some have "match m (match_step m ba sa e) = Some e'" by simp
        from 1(1) [OF this] eventBus_match_step [of ba sa e] show ?thesis by auto
      qed
    qed
  qed
qed

lemma match_same_book:
  assumes "book_inv (book e1)" and "pos_qty (book e1)" and "book e2 = book e1"
  shows "\<exists>e1' e2'. match m1 e1 = Some e1' \<and> match m2 e2 = Some e2' \<and> book e2' = book e1'"
  using assms
proof (induction "card (set (all_nodes (book e1)))" arbitrary: e1 e2 rule: less_induct)
  case less
  show ?case
  proof (cases "no_crossable_pair (book e1)")
    case True
    with match_exit [of e1 m1] match_exit [of e2 m2] less.prems show ?thesis by simp
  next
    case False
    from match_continue [OF less.prems(1) False, of m1] obtain ba sa where
      b: "bestBuy (book e1) = Some ba" "bestSell (book e1) = Some sa"
      and m1: "match m1 e1 = match m1 (match_step m1 ba sa e1)" by blast
    from match_continue [of e2 m2] False less.prems b
    have m2: "match m2 e2 = match m2 (match_step m2 ba sa e2)" by auto
    let ?e1 = "match_step m1 ba sa e1"
    let ?e2 = "match_step m2 ba sa e2"
    note fp = fill_book_props [OF less.prems(1,2) b]
    have "card (set (all_nodes (book ?e1))) < card (set (all_nodes (book e1)))"
      using fp(2) by (simp add: book_match_step psubset_card_mono)
    moreover have "book_inv (book ?e1)" using less.prems(1) by (simp add: book_match_step fill_book_inv)
    moreover have "pos_qty (book ?e1)" using fp(1) by (simp add: book_match_step)
    moreover have "book ?e2 = book ?e1" using less.prems(3) by (simp add: book_match_step)
    ultimately show ?thesis using less.hyps [of ?e1 ?e2] m1 m2 by simp
  qed
qed

lemma cancel_pos:
  assumes inv: "book_inv b" and pos: "pos_qty b"
  shows "pos_qty (cancel i b)"
proof (cases "map_of (index b) i")
  case None
  with pos show ?thesis by (simp add: cancel_absent)
next
  case (Some r)
  note cp = cancel_props [OF inv Some]
  show ?thesis unfolding pos_qty_nodes
  proof
    fix n assume "n \<in> set (all_nodes (cancel i b))"
    then obtain sd p where "n \<in> set (queued (cancel i b) sd p)" by (auto simp: in_all_nodes)
    then have "n \<in> set (queued b sd p)"
      using set_remove1_subset [of "ref_node r" "queued b sd p"] by (auto simp: cp(2) split: if_splits)
    then have "n \<in> set (all_nodes b)" by (auto simp: in_all_nodes)
    moreover have "node_order (cancel i b) n = node_order b n"
      by (simp add: node_order_def cp(3))
    ultimately show "0 < qty (node_order (cancel i b) n)" using pos by (simp add: pos_qty_nodes)
  qed
qed

lemma process_new_order:
  assumes inv: "book_inv (book e1)" and pos: "pos_qty (book e1)" and same: "book e2 = book e1"
    and fresh: "map_of (index (book e1)) (oid ord) = None" and q: "0 < qty ord"
  shows "\<exists>e1' e2'. process_mode (NEW_ORDER ord) Live e1 = Some e1' \<and>
           process_mode (NEW_ORDER ord) Replay e2 = Some e2' \<and> book e2' = book e1' \<and>
           book_inv (book e1') \<and> pos_qty (book e1') \<and>
           wal e2' = wal e2 \<and> eventBus e2' = eventBus e2 \<and>
           (\<exists>ts. wal e1' = wal e1 @ NEW_ORDER ord # ts \<and> (\<forall>t\<in>set ts. is_trade t)) \<and>
           fst ` set (index (book e1')) \<subseteq> insert (oid ord) (fst ` set (index (book e1)))"
proof -
  define pre where "pre m e =
      book_add (next_order (book e)) ((emit m (NEW_ORDER ord) e)\<lparr>book := new_order ord (book e)\<rparr>)"
    for m e
  have pm: "process_mode (NEW_ORDER ord) m e = match m (pre m e)" for m e
    by (simp add: process_mode_def pre_def Let_def)
  let ?b = "new_order ord (book e1)"
  let ?a = "next_order (book e1)"
  have bk: "book (pre m e) = add (next_order (book e)) (new_order ord (book e))" for m e
    by (simp add: pre_def book_add_def)
  have i1: "book_inv ?b" by (rule new_order_inv [OF inv])
  have p1: "pos_qty ?b" by (rule new_order_pos [OF inv pos])
  have f1: "map_of (index ?b) (oid (orders ?b ?a)) = None" using fresh by simp
  have a1: "?a < next_order ?b" by simp
  have q1: "0 < qty (orders ?b ?a)" using q by simp
  have i2: "book_inv (book (pre Live e1))" unfolding bk by (rule add_props(1) [OF i1 f1 a1])
  have p2: "pos_qty (book (pre Live e1))" unfolding bk by (rule add_pos [OF i1 f1 a1 p1 q1])
  have s2: "book (pre Replay e2) = book (pre Live e1)" using same by (simp add: bk)
  from match_same_book [OF i2 p2 s2, of Live Replay] obtain e1' e2' where
    m: "match Live (pre Live e1) = Some e1'" "match Replay (pre Replay e2) = Some e2'"
      "book e2' = book e1'" by blast
  from match_total [OF i2 p2, of Live] m(1) have
    r: "book_inv (book e1')" "pos_qty (book e1')"
      "fst ` set (index (book e1')) \<subseteq> fst ` set (index (book (pre Live e1)))" by auto
  have k: "fst ` set (index (book (pre Live e1))) = insert (oid ord) (fst ` set (index (book e1)))"
    by (simp add: bk index_keys_add)
  from match_wal [OF m(1)] obtain ts where
    ts: "wal e1' = wal (pre Live e1) @ ts" "\<forall>t\<in>set ts. is_trade t" by blast
  have w1: "wal (pre Live e1) = wal e1 @ [NEW_ORDER ord]"
    by (simp add: pre_def book_add_def emit_def publish_def wal_append_def)
  have w2: "wal (pre Replay e2) = wal e2" "eventBus (pre Replay e2) = eventBus e2"
    by (simp_all add: pre_def book_add_def emit_def)
  from match_wal [OF m(2)] w2 have w3: "wal e2' = wal e2" by auto
  from match_eventBus [OF m(2)] w2 have w4: "eventBus e2' = eventBus e2" by simp
  from ts w1 have "\<exists>ts. wal e1' = wal e1 @ NEW_ORDER ord # ts \<and> (\<forall>t\<in>set ts. is_trade t)" by auto
  with m r k w3 w4 show ?thesis by (simp add: pm)
qed

lemma process_cancel_order:
  assumes inv: "book_inv (book e1)" and pos: "pos_qty (book e1)" and same: "book e2 = book e1"
  shows "\<exists>e1' e2'. process_mode (CANCEL_ORDER i) Live e1 = Some e1' \<and>
           process_mode (CANCEL_ORDER i) Replay e2 = Some e2' \<and> book e2' = book e1' \<and>
           book_inv (book e1') \<and> pos_qty (book e1') \<and>
           wal e2' = wal e2 \<and> eventBus e2' = eventBus e2 \<and>
           wal e1' = wal e1 @ [CANCEL_ORDER i] \<and>
           fst ` set (index (book e1')) \<subseteq> fst ` set (index (book e1))"
  using cancel_inv [OF inv, of i] cancel_pos [OF inv pos, of i] same index_keys_cancel [of i "book e1"]
  by (simp add: process_mode_def Let_def book_cancel_def emit_def publish_def wal_append_def)

lemma disjoint_insert_subset: "A \<subseteq> insert x B \<Longrightarrow> x \<notin> C \<Longrightarrow> B \<inter> C = {} \<Longrightarrow> A \<inter> C = {}"
  by blast

lemma disjoint_subset: "A \<subseteq> B \<Longrightarrow> B \<inter> C = {} \<Longrightarrow> A \<inter> C = {}"
  by blast

lemma new_order_ids_subset: "set (new_order_ids evs) \<subseteq> set (new_order_ids (ev # evs))"
  by (cases ev) auto

lemma valid_events_Cons:
  "valid_events (ev # evs) \<Longrightarrow> valid_event ev \<and> valid_events evs"
  by (cases ev) (auto simp: valid_events_def)

lemma valid_events_new:
  "valid_events (NEW_ORDER ord # evs) \<Longrightarrow> oid ord \<notin> set (new_order_ids evs)"
  by (simp add: valid_events_def)

lemma run_both:
  assumes "book_inv (book e1)" and "pos_qty (book e1)" and "book e2 = book e1"
    and "valid_events evs"
    and "fst ` set (index (book e1)) \<inter> set (new_order_ids evs) = {}"
  shows "\<exists>e1' e2'. process_all evs live e1 = Some e1' \<and> process_all evs replay e2 = Some e2' \<and>
           book e2' = book e1' \<and> wal e2' = wal e2 \<and> eventBus e2' = eventBus e2 \<and>
           filter (\<lambda>ev. \<not> is_trade ev) (wal e1') = filter (\<lambda>ev. \<not> is_trade ev) (wal e1) @ evs \<and>
           book_inv (book e1') \<and> pos_qty (book e1')"
  using assms
proof (induction evs arbitrary: e1 e2)
  case Nil
  then show ?case by simp
next
  case (Cons ev evs)
  note ve = valid_events_Cons [OF Cons.prems(4)]
  have step: "\<exists>d1 d2. process_mode ev Live e1 = Some d1 \<and> process_mode ev Replay e2 = Some d2 \<and>
      book d2 = book d1 \<and> book_inv (book d1) \<and> pos_qty (book d1) \<and>
      wal d2 = wal e2 \<and> eventBus d2 = eventBus e2 \<and>
      filter (\<lambda>ev. \<not> is_trade ev) (wal d1) = filter (\<lambda>ev. \<not> is_trade ev) (wal e1) @ [ev] \<and>
      fst ` set (index (book d1)) \<inter> set (new_order_ids evs) = {}"
  proof (cases ev)
    case (NEW_ORDER ord)
    have "oid ord \<notin> fst ` set (index (book e1))" using Cons.prems(5) NEW_ORDER by auto
    then have fresh: "map_of (index (book e1)) (oid ord) = None" by (simp add: map_of_keys)
    have q: "0 < qty ord" using ve NEW_ORDER by simp
    from process_new_order [OF Cons.prems(1-3) fresh q] obtain d1 d2 ts where
      d: "process_mode (NEW_ORDER ord) Live e1 = Some d1"
        "process_mode (NEW_ORDER ord) Replay e2 = Some d2" "book d2 = book d1"
        "book_inv (book d1)" "pos_qty (book d1)" "wal d2 = wal e2" "eventBus d2 = eventBus e2"
        "wal d1 = wal e1 @ NEW_ORDER ord # ts" "\<forall>t\<in>set ts. is_trade t"
        "fst ` set (index (book d1)) \<subseteq> insert (oid ord) (fst ` set (index (book e1)))"
      by blast
    have "filter (\<lambda>ev. \<not> is_trade ev) ts = []" using d(9) by (simp add: filter_empty_conv)
    with d(8) have w: "filter (\<lambda>ev. \<not> is_trade ev) (wal d1) =
        filter (\<lambda>ev. \<not> is_trade ev) (wal e1) @ [NEW_ORDER ord]" by simp
    have n1: "oid ord \<notin> set (new_order_ids evs)"
      using valid_events_new Cons.prems(4) NEW_ORDER by simp
    have n2: "fst ` set (index (book e1)) \<inter> set (new_order_ids evs) = {}"
      using Cons.prems(5) new_order_ids_subset [of evs ev] by blast
    have n3: "fst ` set (index (book d1)) \<inter> set (new_order_ids evs) = {}"
      by (rule disjoint_insert_subset [OF d(10) n1 n2])
    show ?thesis
      unfolding NEW_ORDER
      by (intro exI [of _ d1] exI [of _ d2] conjI d(1-7) w n3)
  next
    case (CANCEL_ORDER i)
    from process_cancel_order [OF Cons.prems(1-3), of i] obtain d1 d2 where
      d: "process_mode (CANCEL_ORDER i) Live e1 = Some d1"
        "process_mode (CANCEL_ORDER i) Replay e2 = Some d2" "book d2 = book d1"
        "book_inv (book d1)" "pos_qty (book d1)" "wal d2 = wal e2" "eventBus d2 = eventBus e2"
        "wal d1 = wal e1 @ [CANCEL_ORDER i]"
        "fst ` set (index (book d1)) \<subseteq> fst ` set (index (book e1))"
      by blast
    have n2: "fst ` set (index (book e1)) \<inter> set (new_order_ids evs) = {}"
      using Cons.prems(5) new_order_ids_subset [of evs ev] by blast
    have n3: "fst ` set (index (book d1)) \<inter> set (new_order_ids evs) = {}"
      by (rule disjoint_subset [OF d(9) n2])
    have w: "filter (\<lambda>ev. \<not> is_trade ev) (wal d1) =
        filter (\<lambda>ev. \<not> is_trade ev) (wal e1) @ [CANCEL_ORDER i]" by (simp add: d(8))
    show ?thesis
      unfolding CANCEL_ORDER
      by (intro exI [of _ d1] exI [of _ d2] conjI d(1-7) w n3)
  next
    case (TRADE x1 x2 x3 x4)
    with ve show ?thesis by simp
  qed
  then obtain d1 d2 where
    d: "process_mode ev Live e1 = Some d1" "process_mode ev Replay e2 = Some d2"
      "book d2 = book d1" "book_inv (book d1)" "pos_qty (book d1)"
      "wal d2 = wal e2" "eventBus d2 = eventBus e2"
      "filter (\<lambda>ev. \<not> is_trade ev) (wal d1) = filter (\<lambda>ev. \<not> is_trade ev) (wal e1) @ [ev]"
      "fst ` set (index (book d1)) \<inter> set (new_order_ids evs) = {}"
    by blast
  from Cons.IH [OF d(4) d(5) d(3) conjunct2 [OF ve] d(9)] obtain e1' e2' where
    r: "process_all evs live d1 = Some e1'" "process_all evs replay d2 = Some e2'"
      "book e2' = book e1'" "wal e2' = wal d2" "eventBus e2' = eventBus d2"
      "filter (\<lambda>ev. \<not> is_trade ev) (wal e1') = filter (\<lambda>ev. \<not> is_trade ev) (wal d1) @ evs"
      "book_inv (book e1')" "pos_qty (book e1')"
    by blast
  from d r show ?case by (simp add: process_live process_replay)
qed

lemma replay_ignores_trades:
  "process_all evs replay e = process_all (filter (\<lambda>ev. \<not> is_trade ev) evs) replay e"
proof (induction evs arbitrary: e)
  case Nil
  then show ?case by simp
next
  case (Cons ev evs)
  show ?case
  proof (cases "is_trade ev")
    case True
    then obtain x1 x2 x3 x4 where "ev = TRADE x1 x2 x3 x4" by (cases ev) auto
    then have "process ev replay e = Some e" by (simp add: process_replay process_mode_def)
    with True Cons.IH show ?thesis by simp
  next
    case False
    with Cons.IH show ?thesis by (simp split: option.split)
  qed
qed

text \<open>
  C1. For every sequence of NEW_ORDER and CANCEL_ORDER events with pairwise distinct
  order ids and positive prices and quantities, the live run from a fresh engine
  returns; and the replay of its log (the inputs interleaved with the trades, in append
  order) from a fresh engine returns an engine with the same book (the same price
  maps, id index, list nodes and order objects, hence the same resting orders with the
  same remaining quantities), an empty log and an empty event bus.
\<close>

theorem replay_reproduces_book:
  assumes "valid_events evs"
  shows "\<exists>e. process_all evs live new_MatchingEngine = Some e \<and>
           (\<exists>e'. process_all (wal e) replay new_MatchingEngine = Some e' \<and>
                 book e' = book e \<and>
                 map (orders (book e')) (resting (book e')) = map (orders (book e)) (resting (book e)) \<and>
                 wal e' = [] \<and> eventBus e' = [])"
proof -
  let ?e0 = new_MatchingEngine
  have i0: "book_inv (book ?e0)" by (simp add: new_MatchingEngine_def book_inv_empty)
  have p0: "pos_qty (book ?e0)"
    by (simp add: new_MatchingEngine_def new_OrderBook_def pos_qty_def resting_def all_nodes_def)
  have f0: "fst ` set (index (book ?e0)) \<inter> set (new_order_ids evs) = {}"
    by (simp add: new_MatchingEngine_def new_OrderBook_def)
  from run_both [OF i0 p0 refl assms f0] obtain e e' where
    r: "process_all evs live ?e0 = Some e" "process_all evs replay ?e0 = Some e'"
      "book e' = book e" "wal e' = wal ?e0" "eventBus e' = eventBus ?e0"
      "filter (\<lambda>ev. \<not> is_trade ev) (wal e) = filter (\<lambda>ev. \<not> is_trade ev) (wal ?e0) @ evs"
    by blast
  from r(6) have "filter (\<lambda>ev. \<not> is_trade ev) (wal e) = evs" by (simp add: new_MatchingEngine_def)
  with r(2) have "process_all (wal e) replay ?e0 = Some e'"
    using replay_ignores_trades [of "wal e" ?e0] by simp
  moreover have "wal e' = []" "eventBus e' = []" using r(4,5) by (simp_all add: new_MatchingEngine_def)
  ultimately show ?thesis using r(1,3) by simp
qed

lemma price_scenario_valid: "valid_events price_scenario"
  by code_simp

theorem replay_reproduces_book_witness:
  "valid_events price_scenario \<and>
   (\<exists>e. process_all price_scenario live new_MatchingEngine = Some e \<and>
        (\<exists>e'. process_all (wal e) replay new_MatchingEngine = Some e' \<and>
              book e' = book e \<and> wal e' = [] \<and> eventBus e' = []))"
  using replay_reproduces_book [OF price_scenario_valid] price_scenario_valid
  by blast

section \<open>Default mode\<close>

lemma emits_match_step:
  "\<exists>ts. wal (match_step m buy sell e) = wal e @ ts \<and>
        eventBus (match_step m buy sell e) = eventBus e @ ts \<and>
        (\<forall>t\<in>set ts. is_trade t) \<and> (m = Replay \<longrightarrow> ts = [])"
proof -
  define q where "q = min (qty (orders (book e) buy)) (qty (orders (book e) sell))"
  show ?thesis
    unfolding match_step_def Let_def q_def [symmetric]
    by (cases m) (simp_all add: emit_def publish_def wal_append_def book_cancel_def)
qed

lemma match_emits:
  assumes m: "match m e = Some e'"
  shows "\<exists>ts. wal e' = wal e @ ts \<and> eventBus e' = eventBus e @ ts \<and>
              (\<forall>t\<in>set ts. is_trade t) \<and> (m = Replay \<longrightarrow> ts = [])"
proof (rule match.raw_induct [where P = "\<lambda>m e e'. \<exists>ts. wal e' = wal e @ ts \<and>
    eventBus e' = eventBus e @ ts \<and> (\<forall>t\<in>set ts. is_trade t) \<and> (m = Replay \<longrightarrow> ts = [])",
    OF _ m], goal_cases)
  case (1 match m e e')
  show ?case
  proof (cases "bestBuy (book e)")
    case None
    with 1(2) show ?thesis by simp
  next
    case (Some ba)
    note bb = this
    show ?thesis
    proof (cases "bestSell (book e)")
      case None
      with 1(2) bb show ?thesis by simp
    next
      case (Some sa)
      show ?thesis
      proof (cases "price (orders (book e) ba) < price (orders (book e) sa)")
        case True
        with 1(2) bb Some show ?thesis by simp
      next
        case False
        with 1(2) bb Some have "match m (match_step m ba sa e) = Some e'" by simp
        from 1(1) [OF this] obtain ts where
          ts: "wal e' = wal (match_step m ba sa e) @ ts"
            "eventBus e' = eventBus (match_step m ba sa e) @ ts"
            "\<forall>t\<in>set ts. is_trade t" "m = Replay \<longrightarrow> ts = []"
          by blast
        from emits_match_step [of m ba sa e] obtain us where
          us: "wal (match_step m ba sa e) = wal e @ us"
            "eventBus (match_step m ba sa e) = eventBus e @ us"
            "\<forall>t\<in>set us. is_trade t" "m = Replay \<longrightarrow> us = []"
          by blast
        from ts us have "wal e' = wal e @ (us @ ts)" "eventBus e' = eventBus e @ (us @ ts)"
          "\<forall>t\<in>set (us @ ts). is_trade t" "m = Replay \<longrightarrow> us @ ts = []" by auto
        then show ?thesis by blast
      qed
    qed
  qed
qed

lemma process_mode_emits:
  assumes p: "process_mode ev m e = Some e'" and nt: "\<not> is_trade ev"
  shows "\<exists>ts. wal e' = wal e @ (if m = Live then [ev] else []) @ ts \<and>
              eventBus e' = eventBus e @ (if m = Live then [ev] else []) @ ts \<and>
              (\<forall>t\<in>set ts. is_trade t) \<and> (m = Replay \<longrightarrow> ts = [])"
proof (cases ev)
  case (NEW_ORDER ord)
  define pre where "pre = book_add (next_order (book e))
      ((emit m (NEW_ORDER ord) e)\<lparr>book := new_order ord (book e)\<rparr>)"
  have w: "wal pre = wal e @ (if m = Live then [ev] else [])"
    "eventBus pre = eventBus e @ (if m = Live then [ev] else [])"
    by (simp_all add: pre_def book_add_def emit_def publish_def wal_append_def NEW_ORDER)
  from p have "match m pre = Some e'"
    by (simp add: process_mode_def NEW_ORDER pre_def Let_def)
  from match_emits [OF this] w show ?thesis by simp
next
  case (CANCEL_ORDER i)
  with p have "e' = book_cancel i (emit m ev e)" by (auto simp: process_mode_def Let_def)
  then have "wal e' = wal e @ (if m = Live then [ev] else []) @ []"
    "eventBus e' = eventBus e @ (if m = Live then [ev] else []) @ []"
    by (simp_all add: book_cancel_def emit_def publish_def wal_append_def)
  then show ?thesis by (intro exI [of _ "[]"]) simp
next
  case (TRADE x1 x2 x3 x4)
  with nt show ?thesis by simp
qed

text \<open>
  C10. Omitting the options argument, or passing options without a mode, is the same
  as asking for live mode: the call returns exactly when the live call does, and the
  resulting engine (book, log, bus and trace of effects) is identical. So for an event
  that is not a TRADE, the engine that a call without mode returns has the event
  appended to the log and published on the bus, followed in both by the same trades,
  and it is not the engine that a replay call returns, which leaves log and bus as they
  were. A CANCEL_ORDER without mode returns, having appended, published and cancelled;
  a NEW_ORDER without mode appends, publishes, inserts the order and runs the live
  matching loop, and it returns when the book satisfies the invariant with positive
  resting quantities and the order has a new id and a positive quantity.
\<close>

theorem default_mode_is_live:
  "process ev None e = process ev (Some \<lparr>mode = Some Live\<rparr>) e \<and>
   process ev (Some \<lparr>mode = None\<rparr>) e = process ev (Some \<lparr>mode = Some Live\<rparr>) e \<and>
   (\<not> is_trade ev \<longrightarrow>
      (\<forall>e'. process ev None e = Some e' \<or> process ev (Some \<lparr>mode = None\<rparr>) e = Some e' \<longrightarrow>
         (\<exists>ts. wal e' = wal e @ ev # ts \<and> eventBus e' = eventBus e @ ev # ts \<and>
               (\<forall>t\<in>set ts. is_trade t)) \<and>
         process ev (Some \<lparr>mode = Some Replay\<rparr>) e \<noteq> Some e')) \<and>
   (\<forall>e'. process ev (Some \<lparr>mode = Some Replay\<rparr>) e = Some e' \<longrightarrow>
      wal e' = wal e \<and> eventBus e' = eventBus e) \<and>
   process (CANCEL_ORDER orderId) None e =
     Some (book_cancel orderId (publish (CANCEL_ORDER orderId) (wal_append (CANCEL_ORDER orderId) e))) \<and>
   process (NEW_ORDER ord) None e =
     match Live (book_add (next_order (book e))
       ((publish (NEW_ORDER ord) (wal_append (NEW_ORDER ord) e))\<lparr>book := new_order ord (book e)\<rparr>)) \<and>
   (book_inv (book e) \<and> pos_qty (book e) \<and> map_of (index (book e)) (oid ord) = None \<and> 0 < qty ord \<longrightarrow>
      (\<exists>e'. process (NEW_ORDER ord) None e = Some e'))"
proof -
  have d: "process ev' None e = process_mode ev' Live e"
    "process ev' (Some \<lparr>mode = None\<rparr>) e = process_mode ev' Live e"
    "process ev' (Some \<lparr>mode = Some Live\<rparr>) e = process_mode ev' Live e"
    "process ev' (Some \<lparr>mode = Some Replay\<rparr>) e = process_mode ev' Replay e" for ev'
    by (simp_all add: process_def)
  have r: "wal e' = wal e \<and> eventBus e' = eventBus e"
    if "process_mode ev Replay e = Some e'" for e'
  proof (cases "is_trade ev")
    case True
    with that show ?thesis by (cases ev) (simp_all add: process_mode_def)
  next
    case False
    from process_mode_emits [OF that False] show ?thesis by simp
  qed
  have l: "(\<exists>ts. wal e' = wal e @ ev # ts \<and> eventBus e' = eventBus e @ ev # ts \<and>
               (\<forall>t\<in>set ts. is_trade t)) \<and> process_mode ev Replay e \<noteq> Some e'"
    if nt: "\<not> is_trade ev" and p: "process_mode ev Live e = Some e'" for e'
  proof -
    from process_mode_emits [OF p nt] obtain ts where
      ts: "wal e' = wal e @ ev # ts" "eventBus e' = eventBus e @ ev # ts" "\<forall>t\<in>set ts. is_trade t"
      by auto
    from ts(1) have "wal e' \<noteq> wal e" by simp
    with r have "process_mode ev Replay e \<noteq> Some e'" by blast
    with ts show ?thesis by blast
  qed
  have c: "process_mode (CANCEL_ORDER orderId) Live e =
      Some (book_cancel orderId (publish (CANCEL_ORDER orderId) (wal_append (CANCEL_ORDER orderId) e)))"
    by (simp add: process_mode_def emit_def)
  have n: "process_mode (NEW_ORDER ord) Live e =
     match Live (book_add (next_order (book e))
       ((publish (NEW_ORDER ord) (wal_append (NEW_ORDER ord) e))\<lparr>book := new_order ord (book e)\<rparr>))"
    by (simp add: process_mode_def emit_def Let_def publish_def wal_append_def)
  have t: "\<exists>e'. process_mode (NEW_ORDER ord) Live e = Some e'"
    if "book_inv (book e) \<and> pos_qty (book e) \<and> map_of (index (book e)) (oid ord) = None \<and> 0 < qty ord"
    using that process_new_order [of e e ord] by blast
  from r l c n t show ?thesis unfolding d by blast
qed

lemma one_bid_engine_facts:
  "book_inv (book one_bid_engine)" "pos_qty (book one_bid_engine)"
  "map_of (index (book one_bid_engine)) (oid (mk_order ''s2'' SELL 10 99)) = None"
  "0 < qty (mk_order ''s2'' SELL 10 99)"
  "\<not> is_trade (NEW_ORDER (mk_order ''s2'' SELL 10 99))"
  by code_simp+

theorem default_mode_is_live_witness:
  "book_inv (book one_bid_engine) \<and> pos_qty (book one_bid_engine) \<and>
   map_of (index (book one_bid_engine)) (oid (mk_order ''s2'' SELL 10 99)) = None \<and>
   0 < qty (mk_order ''s2'' SELL 10 99) \<and>
   \<not> is_trade (NEW_ORDER (mk_order ''s2'' SELL 10 99)) \<and>
   (\<exists>e' ts. process (NEW_ORDER (mk_order ''s2'' SELL 10 99)) None one_bid_engine = Some e' \<and>
      wal e' = wal one_bid_engine @ NEW_ORDER (mk_order ''s2'' SELL 10 99) # ts \<and>
      eventBus e' = eventBus one_bid_engine @ NEW_ORDER (mk_order ''s2'' SELL 10 99) # ts \<and>
      process (NEW_ORDER (mk_order ''s2'' SELL 10 99)) (Some \<lparr>mode = Some Replay\<rparr>) one_bid_engine
        \<noteq> Some e')"
proof -
  note t = default_mode_is_live [of "NEW_ORDER (mk_order ''s2'' SELL 10 99)" one_bid_engine _
      "mk_order ''s2'' SELL 10 99"]
  from t one_bid_engine_facts obtain e' where
    e': "process (NEW_ORDER (mk_order ''s2'' SELL 10 99)) None one_bid_engine = Some e'"
    by blast
  from t one_bid_engine_facts(5) e' obtain ts where
    "wal e' = wal one_bid_engine @ NEW_ORDER (mk_order ''s2'' SELL 10 99) # ts"
    "eventBus e' = eventBus one_bid_engine @ NEW_ORDER (mk_order ''s2'' SELL 10 99) # ts"
    "process (NEW_ORDER (mk_order ''s2'' SELL 10 99)) (Some \<lparr>mode = Some Replay\<rparr>) one_bid_engine
        \<noteq> Some e'"
    by blast
  with e' one_bid_engine_facts show ?thesis by blast
qed

section \<open>Trace of effects\<close>






section \<open>Arrival order\<close>



















end
